theory Spec2Isabelle
  imports Main "HOL-Library.Multiset" "HOL-Library.Monad_Syntax"
begin

section \<open>The leftist-heap priority queue of \<open>priority_queue.hpp\<close>\<close>

text \<open>
  The queue is a pointer structure that \<open>meld\<close> rewrites in place, so the model keeps an
  explicit store: a node lives at an address, a \<open>Node *\<close> is \<open>nat option\<close> (\<open>None\<close> is
  \<open>nullptr\<close>), and every function takes the store and returns the store it leaves behind,
  also when it throws. A call has the value \<open>None\<close> when it has no defined result: it
  dereferences an address that holds no node, or it never returns.
\<close>

subsection \<open>Data\<close>

text \<open>\<open>struct Node\<close>. The field \<open>npl\<close> is a C++ \<open>int\<close>; in a leftist tree it is bounded by the
  logarithm of the number of nodes (lemma \<open>leftist_npl_bound\<close> below), so the model uses
  unbounded integers.\<close>

record 'a node =
  val :: 'a
  l :: "nat option"
  r :: "nat option"
  npl :: int

type_synonym 'a store = "nat \<Rightarrow> 'a node option"

text \<open>Modelled from the spec: the exception classes of \<open>exceptions.hpp\<close>, which is not part of
  the sources. \<open>container_is_empty\<close> is the spec's EmptyContainer and \<open>runtime_error\<close> its
  OperationFailed. \<open>user_exception\<close> stands for whatever the caller's own code throws (the
  ordering predicate, the copy constructor of the element type).\<close>

datatype exn = container_is_empty | runtime_error | user_exception

text \<open>The data members of \<open>class priority_queue\<close>. The ordering predicate returns \<open>None\<close>
  where it throws. \<open>cnt\<close> is a \<open>size_t\<close>; it counts nodes that exist in memory, so it cannot
  reach the wrap-around and the model uses natural numbers.\<close>

record 'a priority_queue =
  root :: "nat option"
  cnt :: nat
  comp_f :: "'a \<Rightarrow> 'a \<Rightarrow> bool option"

text \<open>The free store: the nodes, and the allocator, which hands out addresses in increasing
  order.\<close>

record 'a heap =
  cells :: "'a store"
  lim :: nat

text \<open>The program state: the free store and the queue objects, each at its own address, so
  that \<open>this == &other\<close> is the equality of two addresses.\<close>

record 'a world =
  mem :: "'a heap"
  objs :: "nat \<Rightarrow> 'a priority_queue option"

subsection \<open>Nodes in the store\<close>

text \<open>A write through a pointer: defined only where a node exists.\<close>

definition upd :: "'a store \<Rightarrow> nat \<Rightarrow> ('a node \<Rightarrow> 'a node) \<Rightarrow> 'a store option" where
  "upd h p f = (case h p of None \<Rightarrow> None | Some n \<Rightarrow> Some (h(p \<mapsto> f n)))"

text \<open>\<open>new Node(v)\<close>: the copy constructor of the element type may throw (\<open>copy_throws v\<close>);
  then nothing stays allocated. A copy that does not throw yields the value itself. Memory is
  unbounded: the allocation itself never fails.\<close>

definition new_node :: "('a \<Rightarrow> bool) \<Rightarrow> 'a heap \<Rightarrow> 'a \<Rightarrow> (exn + nat) \<times> 'a heap" where
  "new_node copy_throws hp v =
     (if copy_throws v then (Inl user_exception, hp)
      else (Inr (lim hp),
            \<lparr>cells = (cells hp)(lim hp \<mapsto> \<lparr>val = v, l = None, r = None, npl = 1\<rparr>),
             lim = Suc (lim hp)\<rparr>))"

text \<open>\<open>delete p\<close> for a non-null \<open>p\<close>.\<close>

definition delete_node :: "'a store \<Rightarrow> nat \<Rightarrow> 'a store option" where
  "delete_node h p = (case h p of None \<Rightarrow> None | Some n \<Rightarrow> Some (h(p := None)))"

definition get_npl :: "'a store \<Rightarrow> nat option \<Rightarrow> int option" where
  "get_npl h x = (case x of None \<Rightarrow> Some 0 | Some p \<Rightarrow> map_option npl (h p))"

subsection \<open>The private functions\<close>

text \<open>\<open>meld\<close>, statement by statement. When the predicate throws, the exception leaves the
  function together with the store as it is at that moment.\<close>

partial_function (option) meld ::
  "('a \<Rightarrow> 'a \<Rightarrow> bool option) \<Rightarrow> 'a store \<Rightarrow> nat option \<Rightarrow> nat option
     \<Rightarrow> ((exn + nat option) \<times> 'a store) option" where
  "meld cmp h a b =
     (case a of None \<Rightarrow> Some (Inr b, h) | Some pa \<Rightarrow>
      case b of None \<Rightarrow> Some (Inr a, h) | Some pb \<Rightarrow>
      do {
        na \<leftarrow> h pa;
        nb \<leftarrow> h pb;
        case cmp (val na) (val nb) of
          None \<Rightarrow> Some (Inl user_exception, h)
        | Some c \<Rightarrow>
            let a' = (if c then pb else pa);
                b' = (if c then pa else pb)
            in do {
              n \<leftarrow> h a';
              (res, h1) \<leftarrow> meld cmp h (r n) (Some b');
              case res of
                Inl e \<Rightarrow> Some (Inl e, h1)
              | Inr newRight \<Rightarrow> do {
                  h2 \<leftarrow> upd h1 a' (\<lambda>n. n\<lparr>r := newRight\<rparr>);
                  n2 \<leftarrow> h2 a';
                  nl \<leftarrow> get_npl h2 (l n2);
                  nr \<leftarrow> get_npl h2 (r n2);
                  h3 \<leftarrow> (if nl < nr then upd h2 a' (\<lambda>n. n\<lparr>l := r n, r := l n\<rparr>)
                         else Some h2);
                  n3 \<leftarrow> h3 a';
                  k \<leftarrow> get_npl h3 (r n3);
                  h4 \<leftarrow> upd h3 a' (\<lambda>n. n\<lparr>npl := k + 1\<rparr>);
                  Some (Inr (Some a'), h4)
                }
            }
      })"

text \<open>\<open>clone\<close>. A throw from a deeper call leaves the nodes allocated so far in the store.\<close>

partial_function (option) clone ::
  "('a \<Rightarrow> bool) \<Rightarrow> 'a heap \<Rightarrow> nat option \<Rightarrow> ((exn + nat option) \<times> 'a heap) option" where
  "clone copy_throws hp x =
     (case x of None \<Rightarrow> Some (Inr None, hp) | Some px \<Rightarrow>
      do {
        nx \<leftarrow> cells hp px;
        case new_node copy_throws hp (val nx) of
          (Inl e, hp1) \<Rightarrow> Some (Inl e, hp1)
        | (Inr t, hp1) \<Rightarrow> do {
            nx1 \<leftarrow> cells hp1 px;
            c2 \<leftarrow> upd (cells hp1) t (\<lambda>n. n\<lparr>npl := npl nx1\<rparr>);
            nx2 \<leftarrow> c2 px;
            (resl, hp3) \<leftarrow> clone copy_throws (hp1\<lparr>cells := c2\<rparr>) (l nx2);
            case resl of
              Inl e \<Rightarrow> Some (Inl e, hp3)
            | Inr newl \<Rightarrow> do {
                c4 \<leftarrow> upd (cells hp3) t (\<lambda>n. n\<lparr>l := newl\<rparr>);
                nx4 \<leftarrow> c4 px;
                (resr, hp5) \<leftarrow> clone copy_throws (hp3\<lparr>cells := c4\<rparr>) (r nx4);
                case resr of
                  Inl e \<Rightarrow> Some (Inl e, hp5)
                | Inr newr \<Rightarrow> do {
                    c6 \<leftarrow> upd (cells hp5) t (\<lambda>n. n\<lparr>r := newr\<rparr>);
                    Some (Inr (Some t), hp5\<lparr>cells := c6\<rparr>)
                  }
              }
          }
      })"

text \<open>\<open>clear\<close>: children first, then the node.\<close>

partial_function (option) clear :: "'a store \<Rightarrow> nat option \<Rightarrow> 'a store option" where
  "clear h x =
     (case x of None \<Rightarrow> Some h | Some px \<Rightarrow>
      do {
        n \<leftarrow> h px;
        h1 \<leftarrow> clear h (l n);
        n1 \<leftarrow> h1 px;
        h2 \<leftarrow> clear h1 (r n1);
        delete_node h2 px
      })"

subsection \<open>The public member functions\<close>

text \<open>Each takes the program state and the address \<open>this\<close> of the queue it is called on, and
  returns what the caller sees (\<open>Inl\<close> an exception, \<open>Inr\<close> the value) with the state it
  leaves. \<open>Compare()\<close>, the default-constructed predicate, is the parameter \<open>cmp0\<close>.\<close>

definition construct ::
  "('a \<Rightarrow> 'a \<Rightarrow> bool option) \<Rightarrow> 'a world \<Rightarrow> nat \<Rightarrow> ((exn + unit) \<times> 'a world) option" where
  "construct cmp0 w this =
     (case objs w this of
        Some q \<Rightarrow> None
      | None \<Rightarrow> Some (Inr (), w\<lparr>objs := (objs w)(this \<mapsto> \<lparr>root = None, cnt = 0, comp_f = cmp0\<rparr>)\<rparr>))"

definition copy_construct ::
  "('a \<Rightarrow> bool) \<Rightarrow> 'a world \<Rightarrow> nat \<Rightarrow> nat \<Rightarrow> ((exn + unit) \<times> 'a world) option" where
  "copy_construct copy_throws w this other =
     (case objs w this of
        Some q \<Rightarrow> None
      | None \<Rightarrow> do {
          ot \<leftarrow> objs w other;
          (res, hp1) \<leftarrow> clone copy_throws (mem w) (root ot);
          case res of
            Inl e \<Rightarrow> Some (Inl e, w\<lparr>mem := hp1\<rparr>)
          | Inr p \<Rightarrow> Some (Inr (), \<lparr>mem = hp1,
              objs = (objs w)(this \<mapsto> \<lparr>root = p, cnt = cnt ot, comp_f = comp_f ot\<rparr>)\<rparr>)
        })"

definition destroy :: "'a world \<Rightarrow> nat \<Rightarrow> ((exn + unit) \<times> 'a world) option" where
  "destroy w this =
     do {
       q \<leftarrow> objs w this;
       c \<leftarrow> clear (cells (mem w)) (root q);
       Some (Inr (), \<lparr>mem = (mem w)\<lparr>cells := c\<rparr>, objs = (objs w)(this := None)\<rparr>)
     }"

text \<open>\<open>operator=\<close>; the value returned is the address of \<open>*this\<close>.\<close>

definition assign ::
  "('a \<Rightarrow> bool) \<Rightarrow> 'a world \<Rightarrow> nat \<Rightarrow> nat \<Rightarrow> ((exn + nat) \<times> 'a world) option" where
  "assign copy_throws w this other =
     do {
       q \<leftarrow> objs w this;
       ot \<leftarrow> objs w other;
       if this = other then Some (Inr this, w)
       else do {
         (res, hp1) \<leftarrow> clone copy_throws (mem w) (root ot);
         case res of
           Inl e \<Rightarrow> Some (Inl e, w\<lparr>mem := hp1\<rparr>)
         | Inr newRoot \<Rightarrow> do {
             c \<leftarrow> clear (cells hp1) (root q);
             Some (Inr this, \<lparr>mem = hp1\<lparr>cells := c\<rparr>,
               objs = (objs w)(this \<mapsto> \<lparr>root = newRoot, cnt = cnt ot, comp_f = comp_f ot\<rparr>)\<rparr>)
           }
       }
     }"

definition size_pq :: "'a world \<Rightarrow> nat \<Rightarrow> nat option" where
  "size_pq w this = map_option cnt (objs w this)"

definition empty_pq :: "'a world \<Rightarrow> nat \<Rightarrow> bool option" where
  "empty_pq w this = map_option (\<lambda>q. cnt q = 0) (objs w this)"

text \<open>\<open>top\<close> is a \<open>const\<close> member: it returns a value and has no state to leave.\<close>

definition top_pq :: "'a world \<Rightarrow> nat \<Rightarrow> (exn + 'a) option" where
  "top_pq w this =
     do {
       q \<leftarrow> objs w this;
       e \<leftarrow> empty_pq w this;
       if e then Some (Inl container_is_empty)
       else do {
         p \<leftarrow> root q;
         n \<leftarrow> cells (mem w) p;
         Some (Inr (val n))
       }
     }"

definition push ::
  "('a \<Rightarrow> bool) \<Rightarrow> 'a world \<Rightarrow> nat \<Rightarrow> 'a \<Rightarrow> ((exn + unit) \<times> 'a world) option" where
  "push copy_throws w this e =
     do {
       q \<leftarrow> objs w this;
       case new_node copy_throws (mem w) e of
         (Inl x, hp1) \<Rightarrow> Some (Inl x, w\<lparr>mem := hp1\<rparr>)
       | (Inr node, hp1) \<Rightarrow> do {
           (res, c2) \<leftarrow> meld (comp_f q) (cells hp1) (root q) (Some node);
           case res of
             Inr p \<Rightarrow> Some (Inr (), \<lparr>mem = hp1\<lparr>cells := c2\<rparr>,
               objs = (objs w)(this \<mapsto> q\<lparr>root := p, cnt := cnt q + 1\<rparr>)\<rparr>)
           | Inl x \<Rightarrow> do {
               c3 \<leftarrow> delete_node c2 node;
               Some (Inl runtime_error, \<lparr>mem = hp1\<lparr>cells := c3\<rparr>, objs = objs w\<rparr>)
             }
         }
     }"

definition pop :: "'a world \<Rightarrow> nat \<Rightarrow> ((exn + unit) \<times> 'a world) option" where
  "pop w this =
     do {
       q \<leftarrow> objs w this;
       e \<leftarrow> empty_pq w this;
       if e then Some (Inl container_is_empty, w)
       else do {
         old \<leftarrow> root q;
         n \<leftarrow> cells (mem w) old;
         (res, c1) \<leftarrow> meld (comp_f q) (cells (mem w)) (l n) (r n);
         case res of
           Inr p \<Rightarrow> do {
             c2 \<leftarrow> delete_node c1 old;
             Some (Inr (), \<lparr>mem = (mem w)\<lparr>cells := c2\<rparr>,
               objs = (objs w)(this \<mapsto> q\<lparr>root := p, cnt := cnt q - 1\<rparr>)\<rparr>)
           }
         | Inl x \<Rightarrow> Some (Inl runtime_error, \<lparr>mem = (mem w)\<lparr>cells := c1\<rparr>,
             objs = (objs w)(this \<mapsto> q\<lparr>root := Some old\<rparr>)\<rparr>)
       }
     }"

definition merge_pq :: "'a world \<Rightarrow> nat \<Rightarrow> nat \<Rightarrow> ((exn + unit) \<times> 'a world) option" where
  "merge_pq w this other =
     do {
       q \<leftarrow> objs w this;
       ot \<leftarrow> objs w other;
       e \<leftarrow> empty_pq w other;
       if this = other \<or> e then Some (Inr (), w)
       else do {
         (res, c1) \<leftarrow> meld (comp_f q) (cells (mem w)) (root q) (root ot);
         case res of
           Inr p \<Rightarrow> Some (Inr (), \<lparr>mem = (mem w)\<lparr>cells := c1\<rparr>,
             objs = (objs w)(this \<mapsto> q\<lparr>root := p, cnt := cnt q + cnt ot\<rparr>,
                             other \<mapsto> ot\<lparr>root := None, cnt := 0\<rparr>)\<rparr>)
         | Inl x \<Rightarrow> Some (Inl runtime_error, w\<lparr>mem := (mem w)\<lparr>cells := c1\<rparr>\<rparr>)
       }
     }"

subsection \<open>Reachable states\<close>

text \<open>The states a program can be in: it starts with nothing allocated and calls the public
  member functions; whether a call returns or throws, the state it leaves is reachable.\<close>

definition start :: "'a world" where
  "start = \<lparr>mem = \<lparr>cells = (\<lambda>p. None), lim = 0\<rparr>, objs = (\<lambda>i. None)\<rparr>"

inductive reachable :: "('a \<Rightarrow> 'a \<Rightarrow> bool option) \<Rightarrow> ('a \<Rightarrow> bool) \<Rightarrow> 'a world \<Rightarrow> bool"
  for cmp0 :: "'a \<Rightarrow> 'a \<Rightarrow> bool option" and copy_throws :: "'a \<Rightarrow> bool" where
  by_start: "reachable cmp0 copy_throws start"
| by_construct: "reachable cmp0 copy_throws w \<Longrightarrow> construct cmp0 w this = Some (res, w')
     \<Longrightarrow> reachable cmp0 copy_throws w'"
| by_copy_construct: "reachable cmp0 copy_throws w
     \<Longrightarrow> copy_construct copy_throws w this other = Some (res, w')
     \<Longrightarrow> reachable cmp0 copy_throws w'"
| by_assign: "reachable cmp0 copy_throws w \<Longrightarrow> assign copy_throws w this other = Some (resa, w')
     \<Longrightarrow> reachable cmp0 copy_throws w'"
| by_destroy: "reachable cmp0 copy_throws w \<Longrightarrow> destroy w this = Some (res, w')
     \<Longrightarrow> reachable cmp0 copy_throws w'"
| by_push: "reachable cmp0 copy_throws w \<Longrightarrow> push copy_throws w this e = Some (res, w')
     \<Longrightarrow> reachable cmp0 copy_throws w'"
| by_pop: "reachable cmp0 copy_throws w \<Longrightarrow> pop w this = Some (res, w')
     \<Longrightarrow> reachable cmp0 copy_throws w'"
| by_merge: "reachable cmp0 copy_throws w \<Longrightarrow> merge_pq w this other = Some (res, w')
     \<Longrightarrow> reachable cmp0 copy_throws w'"

subsection \<open>The tree a pointer stands for\<close>

text \<open>A finite binary tree that records, for each node, its address and its three data
  fields. \<open>rep h t\<close> says that the store holds exactly this tree at the address \<open>ptr_of t\<close>;
  \<open>tree_shaped t\<close> says that no node occurs twice, so that there is neither sharing nor a
  cycle.\<close>

datatype 'a ltree = Tip | Br nat 'a int "'a ltree" "'a ltree"

fun ptr_of :: "'a ltree \<Rightarrow> nat option" where
  "ptr_of Tip = None"
| "ptr_of (Br p v n lt rt) = Some p"

fun npl_t :: "'a ltree \<Rightarrow> int" where
  "npl_t Tip = 0"
| "npl_t (Br p v n lt rt) = n"

fun addrs :: "'a ltree \<Rightarrow> nat set" where
  "addrs Tip = {}"
| "addrs (Br p v n lt rt) = insert p (addrs lt \<union> addrs rt)"

fun rep :: "'a store \<Rightarrow> 'a ltree \<Rightarrow> bool" where
  "rep h Tip = True"
| "rep h (Br p v n lt rt) =
     (h p = Some \<lparr>val = v, l = ptr_of lt, r = ptr_of rt, npl = n\<rparr> \<and> rep h lt \<and> rep h rt)"

fun tree_shaped :: "'a ltree \<Rightarrow> bool" where
  "tree_shaped Tip = True"
| "tree_shaped (Br p v n lt rt) =
     (p \<notin> addrs lt \<and> p \<notin> addrs rt \<and> addrs lt \<inter> addrs rt = {} \<and> tree_shaped lt \<and> tree_shaped rt)"

text \<open>The elements stored in a tree, and their number.\<close>

fun elems :: "'a ltree \<Rightarrow> 'a multiset" where
  "elems Tip = {#}"
| "elems (Br p v n lt rt) = {#v#} + elems lt + elems rt"

fun count_t :: "'a ltree \<Rightarrow> nat" where
  "count_t Tip = 0"
| "count_t (Br p v n lt rt) = Suc (count_t lt + count_t rt)"

text \<open>The value at the root, for the comparison of a parent with a child.\<close>

fun not_below_root :: "('a \<Rightarrow> 'a \<Rightarrow> bool) \<Rightarrow> 'a \<Rightarrow> 'a ltree \<Rightarrow> bool" where
  "not_below_root lt v Tip = True"
| "not_below_root lt v (Br p u n lc rc) = (\<not> lt v u)"

text \<open>Heap order: at no node is the parent's value less than a child's value.\<close>

fun heap_order :: "('a \<Rightarrow> 'a \<Rightarrow> bool) \<Rightarrow> 'a ltree \<Rightarrow> bool" where
  "heap_order lt Tip = True"
| "heap_order lt (Br p v n lc rc) =
     (not_below_root lt v lc \<and> not_below_root lt v rc \<and> heap_order lt lc \<and> heap_order lt rc)"

text \<open>The leftist and rank conditions on the stored \<open>npl\<close> fields.\<close>

fun leftist :: "'a ltree \<Rightarrow> bool" where
  "leftist Tip = True"
| "leftist (Br p v n lc rc) =
     (npl_t rc \<le> npl_t lc \<and> n = npl_t rc + 1 \<and> leftist lc \<and> leftist rc)"

text \<open>What \<open>meld\<close> does, read on trees: the statements after the recursive call hang the
  melded tree under the winner and restore the leftist condition.\<close>

definition relink :: "nat \<Rightarrow> 'a \<Rightarrow> 'a ltree \<Rightarrow> 'a ltree \<Rightarrow> 'a ltree" where
  "relink p v lc newRight =
     (if npl_t lc < npl_t newRight then Br p v (npl_t lc + 1) newRight lc
      else Br p v (npl_t newRight + 1) lc newRight)"

function meld_t :: "('a \<Rightarrow> 'a \<Rightarrow> bool option) \<Rightarrow> 'a ltree \<Rightarrow> 'a ltree \<Rightarrow> 'a ltree option" where
  "meld_t cmp Tip b = Some b"
| "meld_t cmp (Br pa va na la ra) Tip = Some (Br pa va na la ra)"
| "meld_t cmp (Br pa va na la ra) (Br pb vb nb lb rb) =
     (case cmp va vb of
        None \<Rightarrow> None
      | Some c \<Rightarrow>
          if c then map_option (relink pb vb lb) (meld_t cmp rb (Br pa va na la ra))
          else map_option (relink pa va la) (meld_t cmp ra (Br pb vb nb lb rb)))"
  by pat_completeness auto
termination
  by (relation "measure (\<lambda>(cmp, a, b). size a + size b)") auto

text \<open>The deep copy that \<open>clone\<close> builds when the allocator's next address is \<open>k\<close>: the node
  itself first, then the left subtree, then the right one.\<close>

fun clone_t :: "nat \<Rightarrow> 'a ltree \<Rightarrow> 'a ltree" where
  "clone_t k Tip = Tip"
| "clone_t k (Br p v n lc rc) =
     Br k v n (clone_t (Suc k) lc) (clone_t (Suc k + count_t lc) rc)"

subsection \<open>Ordering predicates\<close>

text \<open>A strict weak ordering, as C++ requires of \<open>Compare\<close>: irreflexive, transitive, and
  with a transitive incomparability.\<close>

definition strict_weak_ordering :: "('a \<Rightarrow> 'a \<Rightarrow> bool) \<Rightarrow> bool" where
  "strict_weak_ordering lt \<longleftrightarrow>
     (\<forall>x. \<not> lt x x) \<and>
     (\<forall>x y z. lt x y \<longrightarrow> lt y z \<longrightarrow> lt x z) \<and>
     (\<forall>x y z. \<not> lt x y \<and> \<not> lt y x \<longrightarrow> \<not> lt y z \<and> \<not> lt z y \<longrightarrow> \<not> lt x z \<and> \<not> lt z x)"

text \<open>A predicate that may throw answers as the ordering does whenever it answers.\<close>

definition answers :: "('a \<Rightarrow> 'a \<Rightarrow> bool option) \<Rightarrow> ('a \<Rightarrow> 'a \<Rightarrow> bool) \<Rightarrow> bool" where
  "answers cmp lt \<longleftrightarrow> (\<forall>x y. cmp x y = None \<or> cmp x y = Some (lt x y))"

subsection \<open>The invariant\<close>

text \<open>\<open>holds w this t\<close>: the queue at \<open>this\<close> exists and its root points to the tree \<open>t\<close>.\<close>

definition holds :: "'a world \<Rightarrow> nat \<Rightarrow> 'a ltree \<Rightarrow> bool" where
  "holds w this t =
     (case objs w this of
        None \<Rightarrow> False
      | Some q \<Rightarrow> ptr_of t = root q \<and> rep (cells (mem w)) t \<and> tree_shaped t)"

text \<open>A predicate that may throw never contradicts the ordering: where it answers \<open>True\<close> the
  second argument is not less than the first, where it answers \<open>False\<close> the first is not less
  than the second.\<close>

definition sound :: "('a \<Rightarrow> 'a \<Rightarrow> bool option) \<Rightarrow> ('a \<Rightarrow> 'a \<Rightarrow> bool) \<Rightarrow> bool" where
  "sound cmp lt \<longleftrightarrow>
     (\<forall>x y. (cmp x y = Some True \<longrightarrow> \<not> lt y x) \<and> (cmp x y = Some False \<longrightarrow> \<not> lt x y))"

text \<open>\<open>queue_ok cmp0 h q t\<close>: in the store \<open>h\<close> the data members of the queue \<open>q\<close> describe the
  tree \<open>t\<close>: the root points to it, no node is shared, the counter counts it, its \<open>npl\<close> fields
  are those of a leftist tree, and the predicate is the default-constructed one.\<close>

definition queue_ok ::
  "('a \<Rightarrow> 'a \<Rightarrow> bool option) \<Rightarrow> 'a store \<Rightarrow> 'a priority_queue \<Rightarrow> 'a ltree \<Rightarrow> bool" where
  "queue_ok cmp0 h q t \<longleftrightarrow>
     ptr_of t = root q \<and> rep h t \<and> tree_shaped t \<and> cnt q = count_t t \<and> leftist t \<and> comp_f q = cmp0"

text \<open>The invariant of the program state, for an assignment \<open>g\<close> of a tree to every queue:
  nothing is allocated at or beyond the allocator's next address, every queue describes its
  tree, and no two queues share a node.\<close>

definition state_inv :: "('a \<Rightarrow> 'a \<Rightarrow> bool option) \<Rightarrow> 'a world \<Rightarrow> (nat \<Rightarrow> 'a ltree) \<Rightarrow> bool" where
  "state_inv cmp0 w g \<longleftrightarrow>
     (\<forall>p\<ge>lim (mem w). cells (mem w) p = None) \<and>
     (\<forall>i. case objs w i of
            None \<Rightarrow> g i = Tip
          | Some q \<Rightarrow> queue_ok cmp0 (cells (mem w)) q (g i)) \<and>
     (\<forall>i j. i \<noteq> j \<longrightarrow> addrs (g i) \<inter> addrs (g j) = {})"

text \<open>Every tree of the assignment is heap-ordered, for every ordering that the default
  predicate never contradicts.\<close>

definition all_heap_ordered :: "('a \<Rightarrow> 'a \<Rightarrow> bool option) \<Rightarrow> (nat \<Rightarrow> 'a ltree) \<Rightarrow> bool" where
  "all_heap_ordered cmp0 g \<longleftrightarrow> (\<forall>lt i. sound cmp0 lt \<longrightarrow> heap_order lt (g i))"

text \<open>What a call of \<open>clone\<close> on the tree \<open>t\<close> leaves behind when it starts in the store \<open>c\<close> with
  the allocator at \<open>k\<close>: the old addresses are untouched; either the copy of some element threw,
  or the result is the deep copy \<open>clone_t k t\<close>.\<close>

definition clone_post ::
  "('a \<Rightarrow> bool) \<Rightarrow> 'a store \<Rightarrow> nat \<Rightarrow> 'a ltree \<Rightarrow> (exn + nat option) \<Rightarrow> 'a store \<Rightarrow> nat \<Rightarrow> bool" where
  "clone_post ct c k t res c' k' \<longleftrightarrow>
     k \<le> k' \<and> (\<forall>p<k. c' p = c p) \<and> (\<forall>p\<ge>k'. c' p = None) \<and>
     (case res of
        Inl e \<Rightarrow> e = user_exception \<and> (\<exists>v\<in>#elems t. ct v)
      | Inr x \<Rightarrow> (\<forall>v\<in>#elems t. \<not> ct v) \<and> x = ptr_of (clone_t k t) \<and> rep c' (clone_t k t)
                 \<and> k' = k + count_t t)"

text \<open>Every stored \<open>npl\<close> is at least 1.\<close>

fun ranks_ge1 :: "'a ltree \<Rightarrow> bool" where
  "ranks_ge1 Tip = True"
| "ranks_ge1 (Br p v n lc rc) = (1 \<le> n \<and> ranks_ge1 lc \<and> ranks_ge1 rc)"


subsection \<open>A concrete run\<close>

text \<open>An ordering predicate on natural numbers that behaves like \<open>std::less\<close> but throws when
  it is asked to compare 1 with 2, and element types whose copy constructor never or always
  throws.\<close>

definition cmp_demo :: "nat \<Rightarrow> nat \<Rightarrow> bool option" where
  "cmp_demo x y = (if (x = 1 \<and> y = 2) \<or> (x = 2 \<and> y = 1) then None else Some (x < y))"

definition never_throws :: "nat \<Rightarrow> bool" where
  "never_throws v = False"

definition always_throws :: "nat \<Rightarrow> bool" where
  "always_throws v = True"

text \<open>The state after constructing three queues and pushing 3, 1, 2 on the first, 2 on the
  second and 1 on the third; the tree of the first queue; the state after merging the second
  queue into the first; the state after constructing one queue; and the state after a failed
  push.\<close>

definition leaf :: "nat \<Rightarrow> nat node" where
  "leaf v = \<lparr>val = v, l = None, r = None, npl = 1\<rparr>"

definition demo_queue :: "nat option \<Rightarrow> nat \<Rightarrow> nat priority_queue" where
  "demo_queue p n = \<lparr>root = p, cnt = n, comp_f = cmp_demo\<rparr>"

definition demo_cells :: "nat store" where
  "demo_cells = (\<lambda>p. None)(0 \<mapsto> \<lparr>val = 3, l = Some 1, r = Some 2, npl = 2\<rparr>,
      1 \<mapsto> leaf 1, 2 \<mapsto> leaf 2, 3 \<mapsto> leaf 2, 4 \<mapsto> leaf 1)"

definition demo_world :: "nat world" where
  "demo_world = \<lparr>mem = \<lparr>cells = demo_cells, lim = 5\<rparr>,
     objs = (\<lambda>i. None)(0 \<mapsto> demo_queue (Some 0) 3, 1 \<mapsto> demo_queue (Some 3) 1,
                         2 \<mapsto> demo_queue (Some 4) 1)\<rparr>"

definition demo_tree :: "nat ltree" where
  "demo_tree = Br 0 3 2 (Br 1 1 1 Tip Tip) (Br 2 2 1 Tip Tip)"

definition demo_merged :: "nat world" where
  "demo_merged = \<lparr>mem = \<lparr>cells = demo_cells(2 \<mapsto> \<lparr>val = 2, l = Some 3, r = None, npl = 1\<rparr>), lim = 5\<rparr>,
     objs = (\<lambda>i. None)(0 \<mapsto> demo_queue (Some 0) 4, 1 \<mapsto> demo_queue None 0,
                         2 \<mapsto> demo_queue (Some 4) 1)\<rparr>"

definition demo_empty :: "nat world" where
  "demo_empty = \<lparr>mem = \<lparr>cells = (\<lambda>p. None), lim = 0\<rparr>,
     objs = (\<lambda>i. None)(0 \<mapsto> demo_queue None 0)\<rparr>"


section \<open>Verification\<close>

subsection \<open>Trees in the store\<close>

lemma rep_frame: "rep h t \<Longrightarrow> (\<And>p. p \<in> addrs t \<Longrightarrow> h' p = h p) \<Longrightarrow> rep h' t"
  by (induction t) auto

lemma rep_get_npl: "rep h t \<Longrightarrow> get_npl h (ptr_of t) = Some (npl_t t)"
  by (cases t) (auto simp: get_npl_def)

lemma rep_unique: "rep h t \<Longrightarrow> rep h t' \<Longrightarrow> ptr_of t = ptr_of t' \<Longrightarrow> t = t'"
proof (induction t arbitrary: t')
  case Tip
  then show ?case by (cases t') auto
next
  case (Br p v n lc rc)
  then show ?case by (cases t') auto
qed

lemma rep_alloc: "rep h t \<Longrightarrow> p \<in> addrs t \<Longrightarrow> h p \<noteq> None"
  by (induction t) auto

subsection \<open>A throw inside meld leaves the store as it was\<close>

text \<open>This holds for every store, also one that holds no tree at all: \<open>meld\<close> compares on the way
  down and writes on the way up, so when a comparison throws nothing has been written.\<close>

lemma meld_None_left: "meld cmp h None b = Some (Inr b, h)"
  by (subst meld.simps) simp

lemma meld_None_right: "meld cmp h (Some pa) None = Some (Inr (Some pa), h)"
  by (subst meld.simps) simp



lemma meld_Some_Some:
  "meld cmp h (Some pa) (Some pb) =
      do {
        na \<leftarrow> h pa;
        nb \<leftarrow> h pb;
        case cmp (val na) (val nb) of
          None \<Rightarrow> Some (Inl user_exception, h)
        | Some c \<Rightarrow>
            let a' = (if c then pb else pa);
                b' = (if c then pa else pb)
            in do {
              n \<leftarrow> h a';
              (res, h1) \<leftarrow> meld cmp h (r n) (Some b');
              case res of
                Inl e \<Rightarrow> Some (Inl e, h1)
              | Inr newRight \<Rightarrow> do {
                  h2 \<leftarrow> upd h1 a' (\<lambda>n. n\<lparr>r := newRight\<rparr>);
                  n2 \<leftarrow> h2 a';
                  nl \<leftarrow> get_npl h2 (l n2);
                  nr \<leftarrow> get_npl h2 (r n2);
                  h3 \<leftarrow> (if nl < nr then upd h2 a' (\<lambda>n. n\<lparr>l := r n, r := l n\<rparr>)
                         else Some h2);
                  n3 \<leftarrow> h3 a';
                  k \<leftarrow> get_npl h3 (r n3);
                  h4 \<leftarrow> upd h3 a' (\<lambda>n. n\<lparr>npl := k + 1\<rparr>);
                  Some (Inr (Some a'), h4)
                }
            }
      }"
  by (subst meld.simps) simp

subsection \<open>The tree that meld builds\<close>

lemma addrs_relink: "addrs (relink p v lc nr) = insert p (addrs lc \<union> addrs nr)"
  by (auto simp: relink_def)

lemma ptr_of_relink: "ptr_of (relink p v lc nr) = Some p"
  by (simp add: relink_def)

lemma meld_t_addrs: "meld_t cmp ta tb = Some t \<Longrightarrow> addrs t = addrs ta \<union> addrs tb"
  by (induction cmp ta tb arbitrary: t rule: meld_t.induct)
     (auto simp: addrs_relink split: option.splits if_splits)

lemma tree_shaped_relink:
  "tree_shaped (relink p v lc nr) \<longleftrightarrow>
     p \<notin> addrs lc \<and> p \<notin> addrs nr \<and> addrs lc \<inter> addrs nr = {} \<and> tree_shaped lc \<and> tree_shaped nr"
  by (auto simp: relink_def)

lemma meld_t_shaped:
  "meld_t cmp ta tb = Some t \<Longrightarrow> tree_shaped ta \<Longrightarrow> tree_shaped tb \<Longrightarrow> addrs ta \<inter> addrs tb = {}
    \<Longrightarrow> tree_shaped t"
proof (induction cmp ta tb arbitrary: t rule: meld_t.induct)
  case (3 cmp pa va na la ra pb vb nb lb rb)
  from "3.prems"(1) obtain c where c: "cmp va vb = Some c"
    by (auto split: option.splits)
  show ?case
  proof (cases c)
    case True
    with c "3.prems"(1) obtain nr where nr: "meld_t cmp rb (Br pa va na la ra) = Some nr"
      and t: "t = relink pb vb lb nr" by auto
    have "tree_shaped nr"
      using "3.IH"(1)[OF c True nr] "3.prems" by auto
    moreover have "addrs nr = addrs rb \<union> addrs (Br pa va na la ra)"
      using meld_t_addrs[OF nr] .
    ultimately show ?thesis using "3.prems" t
      by (auto simp: tree_shaped_relink)
  next
    case False
    with c "3.prems"(1) obtain nr where nr: "meld_t cmp ra (Br pb vb nb lb rb) = Some nr"
      and t: "t = relink pa va la nr" by auto
    have "tree_shaped nr"
      using "3.IH"(2)[OF c False nr] "3.prems" by auto
    moreover have "addrs nr = addrs ra \<union> addrs (Br pb vb nb lb rb)"
      using meld_t_addrs[OF nr] .
    ultimately show ?thesis using "3.prems" t
      by (auto simp: tree_shaped_relink)
  qed
qed auto

subsection \<open>meld builds that tree in place\<close>

text \<open>On two trees that share no node \<open>meld\<close> returns; it throws exactly when \<open>meld_t\<close> has no
  result, and otherwise leaves the tree \<open>meld_t\<close> computes, touching no node outside the two
  trees.\<close>

lemma rep_upd_other: "rep h t \<Longrightarrow> p \<notin> addrs t \<Longrightarrow> rep (h(p := x)) t"
  by (induction t) auto

lemma meld_tail:
  assumes cell: "h1 p = Some \<lparr>val = v, l = ptr_of lc, r = pr0, npl = n0\<rparr>"
    and lc: "rep h1 lc" and nr: "rep h1 nr"
    and fresh: "p \<notin> addrs lc" "p \<notin> addrs nr"
  shows "\<exists>h4. do {
                  h2 \<leftarrow> upd h1 p (\<lambda>n. n\<lparr>r := ptr_of nr\<rparr>);
                  n2 \<leftarrow> h2 p;
                  nl \<leftarrow> get_npl h2 (l n2);
                  nr \<leftarrow> get_npl h2 (r n2);
                  h3 \<leftarrow> (if nl < nr then upd h2 p (\<lambda>n. n\<lparr>l := r n, r := l n\<rparr>)
                         else Some h2);
                  n3 \<leftarrow> h3 p;
                  k \<leftarrow> get_npl h3 (r n3);
                  h4 \<leftarrow> upd h3 p (\<lambda>n. n\<lparr>npl := k + 1\<rparr>);
                  Some (Inr (Some p) :: exn + nat option, h4)
                } = Some (Inr (Some p), h4)
          \<and> rep h4 (relink p v lc nr) \<and> (\<forall>q. q \<noteq> p \<longrightarrow> h4 q = h1 q)"
proof -
  define h2 where "h2 = h1(p \<mapsto> \<lparr>val = v, l = ptr_of lc, r = ptr_of nr, npl = n0\<rparr>)"
  have u2: "upd h1 p (\<lambda>n. n\<lparr>r := ptr_of nr\<rparr>) = Some h2"
    by (simp add: upd_def cell h2_def)
  have lc2: "rep h2 lc" and nr2: "rep h2 nr"
    using lc nr fresh by (simp_all add: rep_upd_other h2_def)
  have g2: "get_npl h2 (ptr_of lc) = Some (npl_t lc)" "get_npl h2 (ptr_of nr) = Some (npl_t nr)"
    using lc2 nr2 by (simp_all add: rep_get_npl)
  show ?thesis
  proof (cases "npl_t lc < npl_t nr")
    case True
    define h3 where "h3 = h1(p \<mapsto> \<lparr>val = v, l = ptr_of nr, r = ptr_of lc, npl = n0\<rparr>)"
    define h4 where "h4 = h1(p \<mapsto> \<lparr>val = v, l = ptr_of nr, r = ptr_of lc, npl = npl_t lc + 1\<rparr>)"
    have u3: "upd h2 p (\<lambda>n. n\<lparr>l := r n, r := l n\<rparr>) = Some h3"
      by (simp add: upd_def h2_def h3_def)
    have g3: "get_npl h3 (ptr_of lc) = Some (npl_t lc)"
      using lc fresh by (simp add: rep_get_npl rep_upd_other h3_def)
    have u4: "upd h3 p (\<lambda>n. n\<lparr>npl := npl_t lc + 1\<rparr>) = Some h4"
      by (simp add: upd_def h3_def h4_def)
    have "rep h4 lc" "rep h4 nr"
      using lc nr fresh by (simp_all add: rep_upd_other h4_def)
    then have "rep h4 (relink p v lc nr)"
      using True by (simp add: relink_def h4_def)
    moreover have "\<forall>q. q \<noteq> p \<longrightarrow> h4 q = h1 q" by (simp add: h4_def)
    ultimately show ?thesis using True u2 u3 u4 g2 g3
      by (intro exI[of _ h4]) (simp add: h2_def h3_def)
  next
    case False
    define h4 where "h4 = h1(p \<mapsto> \<lparr>val = v, l = ptr_of lc, r = ptr_of nr, npl = npl_t nr + 1\<rparr>)"
    have u4: "upd h2 p (\<lambda>n. n\<lparr>npl := npl_t nr + 1\<rparr>) = Some h4"
      by (simp add: upd_def h2_def h4_def)
    have "rep h4 lc" "rep h4 nr"
      using lc nr fresh by (simp_all add: rep_upd_other h4_def)
    then have "rep h4 (relink p v lc nr)"
      using False by (simp add: relink_def h4_def)
    moreover have "\<forall>q. q \<noteq> p \<longrightarrow> h4 q = h1 q" by (simp add: h4_def)
    ultimately show ?thesis using False u2 u4 g2
      by (intro exI[of _ h4]) (simp add: h2_def)
  qed
qed

lemma meld_refines:
  assumes "rep h ta" "rep h tb" "tree_shaped ta" "tree_shaped tb" "addrs ta \<inter> addrs tb = {}"
  shows "case meld_t cmp ta tb of
           None \<Rightarrow> meld cmp h (ptr_of ta) (ptr_of tb) = Some (Inl user_exception, h)
         | Some t \<Rightarrow> \<exists>h'. meld cmp h (ptr_of ta) (ptr_of tb) = Some (Inr (ptr_of t), h') \<and> rep h' t
                       \<and> (\<forall>q. q \<notin> addrs ta \<union> addrs tb \<longrightarrow> h' q = h q)"
  using assms
proof (induction cmp ta tb rule: meld_t.induct)
  case (1 cmp b)
  then show ?case by (simp add: meld_None_left)
next
  case (2 cmp pa va na la ra)
  then show ?case by (simp add: meld_None_right)
next
  case (3 cmp pa va na la ra pb vb nb lb rb)
  let ?a = "Br pa va na la ra" and ?b = "Br pb vb nb lb rb"
  have ha: "h pa = Some \<lparr>val = va, l = ptr_of la, r = ptr_of ra, npl = na\<rparr>"
    and hb: "h pb = Some \<lparr>val = vb, l = ptr_of lb, r = ptr_of rb, npl = nb\<rparr>"
    using "3.prems" by auto
  show ?case
  proof (cases "cmp va vb")
    case None
    then show ?thesis by (simp add: meld_Some_Some ha hb)
  next
    case (Some c)
    define w lo where "w = (if c then ?b else ?a)" and "lo = (if c then ?a else ?b)"
    obtain pw vw nw lw rw where w: "w = Br pw vw nw lw rw"
      by (cases c) (auto simp: w_def)
    have plo: "ptr_of lo = Some (if c then pa else pb)" and pw: "pw = (if c then pb else pa)"
      using w by (auto simp: w_def lo_def split: if_splits)
    have hw: "h pw = Some \<lparr>val = vw, l = ptr_of lw, r = ptr_of rw, npl = nw\<rparr>"
      using w ha hb by (auto simp: w_def split: if_splits)
    have mt: "meld_t cmp ?a ?b = map_option (relink pw vw lw) (meld_t cmp rw lo)"
      using w Some by (auto simp: w_def lo_def split: if_splits)
    have pre: "rep h rw" "rep h lo" "tree_shaped rw" "tree_shaped lo" "addrs rw \<inter> addrs lo = {}"
      "rep h lw" "pw \<notin> addrs lw" "pw \<notin> addrs rw" "pw \<notin> addrs lo" "addrs lw \<inter> addrs rw = {}"
      "addrs lw \<inter> addrs lo = {}"
      using "3.prems" w by (auto simp: w_def lo_def split: if_splits)
    have ad: "insert pw (addrs lw \<union> addrs rw \<union> addrs lo) = addrs ?a \<union> addrs ?b"
      using w by (auto simp: w_def lo_def split: if_splits)
    have IH: "case meld_t cmp rw lo of
           None \<Rightarrow> meld cmp h (ptr_of rw) (ptr_of lo) = Some (Inl user_exception, h)
         | Some t \<Rightarrow> \<exists>h'. meld cmp h (ptr_of rw) (ptr_of lo) = Some (Inr (ptr_of t), h') \<and> rep h' t
                       \<and> (\<forall>q. q \<notin> addrs rw \<union> addrs lo \<longrightarrow> h' q = h q)"
    proof (cases c)
      case True
      with w have eq: "rw = rb" "lo = ?a" by (auto simp: w_def lo_def)
      from pre(1-5) show ?thesis unfolding eq by (rule "3.IH"(1)[OF Some True])
    next
      case False
      with w have eq: "rw = ra" "lo = ?b" by (auto simp: w_def lo_def)
      from pre(1-5) show ?thesis unfolding eq by (rule "3.IH"(2)[OF Some False])
    qed
    have unfold: "meld cmp h (ptr_of ?a) (ptr_of ?b) =
       do {
              (res, h1) \<leftarrow> meld cmp h (ptr_of rw) (ptr_of lo);
              case res of
                Inl e \<Rightarrow> Some (Inl e, h1)
              | Inr newRight \<Rightarrow> do {
                  h2 \<leftarrow> upd h1 pw (\<lambda>n. n\<lparr>r := newRight\<rparr>);
                  n2 \<leftarrow> h2 pw;
                  nl \<leftarrow> get_npl h2 (l n2);
                  nr \<leftarrow> get_npl h2 (r n2);
                  h3 \<leftarrow> (if nl < nr then upd h2 pw (\<lambda>n. n\<lparr>l := r n, r := l n\<rparr>)
                         else Some h2);
                  n3 \<leftarrow> h3 pw;
                  k \<leftarrow> get_npl h3 (r n3);
                  h4 \<leftarrow> upd h3 pw (\<lambda>n. n\<lparr>npl := k + 1\<rparr>);
                  Some (Inr (Some pw), h4)
                }
            }"
    proof (cases c)
      case True
      then have eq: "pw = pb" "rw = rb" "lo = ?a" using w by (auto simp: w_def lo_def)
      show ?thesis unfolding eq using Some True by (simp add: meld_Some_Some ha hb Let_def)
    next
      case False
      then have eq: "pw = pa" "rw = ra" "lo = ?b" using w by (auto simp: w_def lo_def)
      show ?thesis unfolding eq using Some False by (simp add: meld_Some_Some ha hb Let_def)
    qed
    show ?thesis
    proof (cases "meld_t cmp rw lo")
      case None
      with IH have "meld cmp h (ptr_of rw) (ptr_of lo) = Some (Inl user_exception, h)" by simp
      with None mt show ?thesis unfolding unfold by simp
    next
      case (Some nr)
      with IH obtain h1 where h1: "meld cmp h (ptr_of rw) (ptr_of lo) = Some (Inr (ptr_of nr), h1)"
        and rep1: "rep h1 nr" and fr1: "\<And>q. q \<notin> addrs rw \<union> addrs lo \<Longrightarrow> h1 q = h q"
        by auto
      have anr: "addrs nr = addrs rw \<union> addrs lo" using meld_t_addrs[OF Some] .
      have cell: "h1 pw = Some \<lparr>val = vw, l = ptr_of lw, r = ptr_of rw, npl = nw\<rparr>"
        using fr1[of pw] pre hw by simp
      have lw1: "rep h1 lw"
        using pre fr1 by (intro rep_frame[OF pre(6)]) auto
      from meld_tail[OF cell lw1 rep1 pre(7)] pre anr
      obtain h4 where tail: "do {
                  h2 \<leftarrow> upd h1 pw (\<lambda>n. n\<lparr>r := ptr_of nr\<rparr>);
                  n2 \<leftarrow> h2 pw;
                  nl \<leftarrow> get_npl h2 (l n2);
                  nr \<leftarrow> get_npl h2 (r n2);
                  h3 \<leftarrow> (if nl < nr then upd h2 pw (\<lambda>n. n\<lparr>l := r n, r := l n\<rparr>)
                         else Some h2);
                  n3 \<leftarrow> h3 pw;
                  k \<leftarrow> get_npl h3 (r n3);
                  h4 \<leftarrow> upd h3 pw (\<lambda>n. n\<lparr>npl := k + 1\<rparr>);
                  Some (Inr (Some pw) :: exn + nat option, h4)
                } = Some (Inr (Some pw), h4)"
        and rep4: "rep h4 (relink pw vw lw nr)" and fr4: "\<And>q. q \<noteq> pw \<Longrightarrow> h4 q = h1 q"
        by auto
      have "meld cmp h (ptr_of ?a) (ptr_of ?b) = Some (Inr (Some pw), h4)"
        unfolding unfold h1 using tail by simp
      moreover have "\<forall>q. q \<notin> addrs ?a \<union> addrs ?b \<longrightarrow> h4 q = h q"
        using fr4 fr1 unfolding ad[symmetric] by auto
      ultimately show ?thesis using rep4 mt Some
        by (simp add: ptr_of_relink)
    qed
  qed
qed


subsection \<open>Elements, count, leftist condition and heap order of the melded tree\<close>

lemma elems_relink: "elems (relink p v lc nr) = {#v#} + elems lc + elems nr"
  by (simp add: relink_def)

lemma count_relink: "count_t (relink p v lc nr) = Suc (count_t lc + count_t nr)"
  by (simp add: relink_def)

lemma leftist_relink: "leftist (relink p v lc nr) \<longleftrightarrow> leftist lc \<and> leftist nr"
  by (auto simp: relink_def)

lemma meld_t_elems: "meld_t cmp ta tb = Some t \<Longrightarrow> elems t = elems ta + elems tb"
  by (induction cmp ta tb arbitrary: t rule: meld_t.induct)
     (auto simp: elems_relink split: option.splits if_splits)

lemma meld_t_count: "meld_t cmp ta tb = Some t \<Longrightarrow> count_t t = count_t ta + count_t tb"
  by (induction cmp ta tb arbitrary: t rule: meld_t.induct)
     (auto simp: count_relink split: option.splits if_splits)

lemma meld_t_leftist: "meld_t cmp ta tb = Some t \<Longrightarrow> leftist ta \<Longrightarrow> leftist tb \<Longrightarrow> leftist t"
proof (induction cmp ta tb arbitrary: t rule: meld_t.induct)
  case (1 cmp b)
  then show ?case by simp
next
  case (2 cmp pa va na la ra)
  then show ?case by simp
next
  case (3 cmp pa va na la ra pb vb nb lb rb)
  let ?a = "Br pa va na la ra" and ?b = "Br pb vb nb lb rb"
  from "3.prems"(1) obtain c where c: "cmp va vb = Some c"
    by (auto split: option.splits)
  show ?case
  proof (cases c)
    case True
    with c "3.prems"(1) obtain nr where nr: "meld_t cmp rb ?a = Some nr"
      and t: "t = relink pb vb lb nr" by auto
    have "leftist rb" "leftist lb" using "3.prems"(3) by simp_all
    then show ?thesis
      using "3.IH"(1)[OF c True nr _ "3.prems"(2)] t by (simp add: leftist_relink)
  next
    case False
    with c "3.prems"(1) obtain nr where nr: "meld_t cmp ra ?b = Some nr"
      and t: "t = relink pa va la nr" by auto
    have "leftist ra" "leftist la" using "3.prems"(2) by simp_all
    then show ?thesis
      using "3.IH"(2)[OF c False nr _ "3.prems"(3)] t by (simp add: leftist_relink)
  qed
qed

lemma heap_order_relink:
  "heap_order lt (relink p v lc nr) \<longleftrightarrow>
     not_below_root lt v lc \<and> not_below_root lt v nr \<and> heap_order lt lc \<and> heap_order lt nr"
  by (auto simp: relink_def)

lemma not_below_root_relink: "not_below_root lt u (relink p v lc nr) \<longleftrightarrow> \<not> lt u v"
  by (simp add: relink_def)

lemma meld_t_root:
  "meld_t cmp ta tb = Some t \<Longrightarrow> not_below_root lt u ta \<Longrightarrow> not_below_root lt u tb
     \<Longrightarrow> not_below_root lt u t"
  by (induction cmp ta tb arbitrary: t rule: meld_t.induct)
     (auto simp: not_below_root_relink split: option.splits if_splits)

lemma meld_t_heap_order:
  "meld_t cmp ta tb = Some t \<Longrightarrow> sound cmp lt \<Longrightarrow> heap_order lt ta \<Longrightarrow> heap_order lt tb
     \<Longrightarrow> heap_order lt t"
proof (induction cmp ta tb arbitrary: t rule: meld_t.induct)
  case (3 cmp pa va na la ra pb vb nb lb rb)
  let ?a = "Br pa va na la ra" and ?b = "Br pb vb nb lb rb"
  from "3.prems"(1) obtain c where c: "cmp va vb = Some c"
    by (auto split: option.splits)
  show ?case
  proof (cases c)
    case True
    with c "3.prems"(1) obtain nr where nr: "meld_t cmp rb ?a = Some nr"
      and t: "t = relink pb vb lb nr" by auto
    have "\<not> lt vb va" using c True "3.prems"(2) by (auto simp: sound_def)
    then have "not_below_root lt vb nr"
      using meld_t_root[OF nr, of lt vb] "3.prems" by simp
    moreover have "heap_order lt nr"
      using "3.IH"(1)[OF c True nr] "3.prems" by simp
    ultimately show ?thesis using t "3.prems" by (simp add: heap_order_relink)
  next
    case False
    with c "3.prems"(1) obtain nr where nr: "meld_t cmp ra ?b = Some nr"
      and t: "t = relink pa va la nr" by auto
    have "\<not> lt va vb" using c False "3.prems"(2) by (auto simp: sound_def)
    then have "not_below_root lt va nr"
      using meld_t_root[OF nr, of lt va] "3.prems" by simp
    moreover have "heap_order lt nr"
      using "3.IH"(2)[OF c False nr] "3.prems" by simp
    ultimately show ?thesis using t "3.prems" by (simp add: heap_order_relink)
  qed
qed auto


subsection \<open>Strict weak orderings\<close>

lemma swo_irrefl:
  assumes "strict_weak_ordering lt"
  shows "\<not> lt x x"
proof -
  from assms have "\<forall>x. \<not> lt x x"
    unfolding strict_weak_ordering_def by (rule conjunct1)
  then show ?thesis by (rule spec)
qed

lemma swo_trans:
  assumes "strict_weak_ordering lt" "lt x y" "lt y z"
  shows "lt x z"
proof -
  from assms(1) have "\<forall>x y z. lt x y \<longrightarrow> lt y z \<longrightarrow> lt x z"
    unfolding strict_weak_ordering_def by (rule conjunct1[OF conjunct2])
  from this[rule_format, OF assms(2,3)] show ?thesis .
qed

lemma swo_incomp:
  assumes "strict_weak_ordering lt" "\<not> lt x y" "\<not> lt y x" "\<not> lt y z" "\<not> lt z y"
  shows "\<not> lt x z"
proof -
  from assms(1) have "\<forall>x y z. \<not> lt x y \<and> \<not> lt y x \<longrightarrow> \<not> lt y z \<and> \<not> lt z y \<longrightarrow> \<not> lt x z \<and> \<not> lt z x"
    unfolding strict_weak_ordering_def by (rule conjunct2[OF conjunct2])
  from this[rule_format, of x y z] assms(2-5) show ?thesis by simp
qed

lemma swo_asym: "strict_weak_ordering lt \<Longrightarrow> lt x y \<Longrightarrow> \<not> lt y x"
  using swo_irrefl[of lt x] swo_trans[of lt x y x] by blast

lemma answers_Some:
  assumes "answers cmp lt" "cmp x y = Some c"
  shows "c = lt x y"
proof -
  from assms(1) have "\<forall>x y. cmp x y = None \<or> cmp x y = Some (lt x y)"
    unfolding answers_def .
  then have "cmp x y = None \<or> cmp x y = Some (lt x y)" by blast
  with assms(2) show ?thesis by simp
qed

lemma swo_sound:
  assumes "strict_weak_ordering lt" "answers cmp lt"
  shows "sound cmp lt"
  unfolding sound_def
proof (intro allI conjI impI)
  fix x y
  assume "cmp x y = Some True"
  then have "lt x y" using answers_Some[OF assms(2)] by blast
  then show "\<not> lt y x" by (rule swo_asym[OF assms(1)])
next
  fix x y
  assume "cmp x y = Some False"
  then show "\<not> lt x y" using answers_Some[OF assms(2)] by blast
qed

lemma swo_neg_trans:
  assumes "strict_weak_ordering lt" "\<not> lt a b" "\<not> lt b c"
  shows "\<not> lt a c"
proof
  assume ac: "lt a c"
  have "\<not> lt b a" using swo_trans[OF assms(1), of b a c] ac assms(3) by blast
  moreover have "\<not> lt c b" using swo_trans[OF assms(1), of a c b] ac assms(2) by blast
  ultimately show False using swo_incomp[OF assms(1), of a b c] assms(2,3) ac by blast
qed

lemma heap_order_root_max:
  assumes "strict_weak_ordering lt"
  shows "heap_order lt t \<Longrightarrow> not_below_root lt v t \<Longrightarrow> x \<in># elems t \<Longrightarrow> \<not> lt v x"
proof (induction t arbitrary: v)
  case Tip
  then show ?case by simp
next
  case (Br p u n lc rc)
  have vu: "\<not> lt v u" using Br.prems by simp
  from Br.prems(3) consider "x = u" | "x \<in># elems lc" | "x \<in># elems rc" by auto
  then show ?case
  proof cases
    case 1
    then show ?thesis using vu by simp
  next
    case 2
    then have "\<not> lt u x" using Br.IH(1)[of u] Br.prems by simp
    then show ?thesis by (rule swo_neg_trans[OF assms vu])
  next
    case 3
    then have "\<not> lt u x" using Br.IH(2)[of u] Br.prems by simp
    then show ?thesis by (rule swo_neg_trans[OF assms vu])
  qed
qed


subsection \<open>clear and clone\<close>

lemma clear_None: "clear h None = Some h"
  by (subst clear.simps) simp

lemma clear_Some:
  "clear h (Some px) =
      do {
        n \<leftarrow> h px;
        h1 \<leftarrow> clear h (l n);
        n1 \<leftarrow> h1 px;
        h2 \<leftarrow> clear h1 (r n1);
        delete_node h2 px
      }"
  by (subst clear.simps) simp

lemma clear_refines:
  "rep h t \<Longrightarrow> tree_shaped t \<Longrightarrow> clear h (ptr_of t) = Some (\<lambda>q. if q \<in> addrs t then None else h q)"
proof (induction t arbitrary: h)
  case Tip
  then show ?case by (simp add: clear_None)
next
  case (Br p v n lc rc)
  define h1 where "h1 = (\<lambda>q. if q \<in> addrs lc then None else h q)"
  define h2 where "h2 = (\<lambda>q. if q \<in> addrs rc then None else h1 q)"
  have cell: "h p = Some \<lparr>val = v, l = ptr_of lc, r = ptr_of rc, npl = n\<rparr>"
    using Br.prems by simp
  have c1: "clear h (ptr_of lc) = Some h1"
    using Br.IH(1)[of h] Br.prems by (simp add: h1_def)
  have cell1: "h1 p = Some \<lparr>val = v, l = ptr_of lc, r = ptr_of rc, npl = n\<rparr>"
    using Br.prems cell by (simp add: h1_def)
  have "rep h1 rc"
  proof (rule rep_frame[of h])
    show "rep h rc" using Br.prems by simp
    show "\<And>q. q \<in> addrs rc \<Longrightarrow> h1 q = h q"
      using Br.prems by (auto simp: h1_def)
  qed
  then have c2: "clear h1 (ptr_of rc) = Some h2"
    using Br.IH(2)[of h1] Br.prems by (simp add: h2_def)
  have cell2: "h2 p = Some \<lparr>val = v, l = ptr_of lc, r = ptr_of rc, npl = n\<rparr>"
    using Br.prems cell1 by (simp add: h2_def)
  have "delete_node h2 p = Some (h2(p := None))"
    by (simp add: delete_node_def cell2)
  moreover have "h2(p := None) = (\<lambda>q. if q \<in> addrs (Br p v n lc rc) then None else h q)"
    by (auto simp: h2_def h1_def fun_eq_iff)
  ultimately show ?case
    by (simp add: clear_Some cell c1 cell1 c2)
qed

lemma addrs_clone_t: "addrs (clone_t k t) = {k..<k + count_t t}"
  by (induction t arbitrary: k) auto

lemma tree_shaped_clone_t: "tree_shaped (clone_t k t)"
  by (induction t arbitrary: k) (auto simp: addrs_clone_t)

lemma ptr_of_clone_t: "ptr_of (clone_t k t) = (if t = Tip then None else Some k)"
  by (cases t) auto

lemma elems_clone_t: "elems (clone_t k t) = elems t"
  by (induction t arbitrary: k) auto

lemma count_clone_t: "count_t (clone_t k t) = count_t t"
  by (induction t arbitrary: k) auto

lemma npl_clone_t: "npl_t (clone_t k t) = npl_t t"
  by (cases t) auto

lemma leftist_clone_t: "leftist (clone_t k t) = leftist t"
  by (induction t arbitrary: k) (simp_all add: npl_clone_t)

lemma not_below_root_clone_t: "not_below_root lt v (clone_t k t) = not_below_root lt v t"
  by (cases t) auto

lemma heap_order_clone_t: "heap_order lt (clone_t k t) = heap_order lt t"
  by (induction t arbitrary: k) (simp_all add: not_below_root_clone_t)

lemma rep_below_lim: "rep h t \<Longrightarrow> (\<And>p. k \<le> p \<Longrightarrow> h p = None) \<Longrightarrow> p \<in> addrs t \<Longrightarrow> p < k"
  using rep_alloc[of h t p] by (meson not_le)


lemma clone_None: "clone ct hp None = Some (Inr None, hp)"
  by (subst clone.simps) simp

lemma clone_Some:
  "clone copy_throws hp (Some px) =
      do {
        nx \<leftarrow> cells hp px;
        case new_node copy_throws hp (val nx) of
          (Inl e, hp1) \<Rightarrow> Some (Inl e, hp1)
        | (Inr t, hp1) \<Rightarrow> do {
            nx1 \<leftarrow> cells hp1 px;
            c2 \<leftarrow> upd (cells hp1) t (\<lambda>n. n\<lparr>npl := npl nx1\<rparr>);
            nx2 \<leftarrow> c2 px;
            (resl, hp3) \<leftarrow> clone copy_throws (hp1\<lparr>cells := c2\<rparr>) (l nx2);
            case resl of
              Inl e \<Rightarrow> Some (Inl e, hp3)
            | Inr newl \<Rightarrow> do {
                c4 \<leftarrow> upd (cells hp3) t (\<lambda>n. n\<lparr>l := newl\<rparr>);
                nx4 \<leftarrow> c4 px;
                (resr, hp5) \<leftarrow> clone copy_throws (hp3\<lparr>cells := c4\<rparr>) (r nx4);
                case resr of
                  Inl e \<Rightarrow> Some (Inl e, hp5)
                | Inr newr \<Rightarrow> do {
                    c6 \<leftarrow> upd (cells hp5) t (\<lambda>n. n\<lparr>r := newr\<rparr>);
                    Some (Inr (Some t), hp5\<lparr>cells := c6\<rparr>)
                  }
              }
          }
      }"
  by (subst clone.simps) simp

lemma clone_refines_aux:
  "rep c t \<Longrightarrow> (\<forall>p\<ge>k. c p = None) \<Longrightarrow>
     \<exists>res c' k'. clone ct \<lparr>cells = c, lim = k\<rparr> (ptr_of t) = Some (res, \<lparr>cells = c', lim = k'\<rparr>)
        \<and> clone_post ct c k t res c' k'"
proof (induction t arbitrary: c k)
  case Tip
  then show ?case by (simp add: clone_None clone_post_def)
next
  case (Br p v n lc rc)
  have cell: "c p = Some \<lparr>val = v, l = ptr_of lc, r = ptr_of rc, npl = n\<rparr>"
    and replc: "rep c lc" and reprc: "rep c rc"
    using Br.prems by simp_all
  have wf: "\<And>q. k \<le> q \<Longrightarrow> c q = None" using Br.prems by simp
  have pk: "p < k" using wf[of p] cell by (cases "k \<le> p") auto
  have lck: "\<And>q. q \<in> addrs lc \<Longrightarrow> q < k" using rep_below_lim[OF replc wf] by blast
  have rck: "\<And>q. q \<in> addrs rc \<Longrightarrow> q < k" using rep_below_lim[OF reprc wf] by blast
  let ?t = "Br p v n lc rc"
  show ?case
  proof (cases "ct v")
    case True
    then have "clone ct \<lparr>cells = c, lim = k\<rparr> (ptr_of ?t) = Some (Inl user_exception, \<lparr>cells = c, lim = k\<rparr>)"
      by (simp add: clone_Some cell new_node_def)
    moreover have "clone_post ct c k ?t (Inl user_exception) c k"
      using True wf by (simp add: clone_post_def)
    ultimately show ?thesis by blast
  next
    case False
    define c2 where "c2 = c(k \<mapsto> \<lparr>val = v, l = None, r = None, npl = n\<rparr>)"
    have c2p: "c2 p = Some \<lparr>val = v, l = ptr_of lc, r = ptr_of rc, npl = n\<rparr>"
      using pk cell by (simp add: c2_def)
    have step1: "clone ct \<lparr>cells = c, lim = k\<rparr> (ptr_of ?t) =
       do {
            (resl, hp3) \<leftarrow> clone ct \<lparr>cells = c2, lim = Suc k\<rparr> (ptr_of lc);
            case resl of
              Inl e \<Rightarrow> Some (Inl e, hp3)
            | Inr newl \<Rightarrow> do {
                c4 \<leftarrow> upd (cells hp3) k (\<lambda>n. n\<lparr>l := newl\<rparr>);
                nx4 \<leftarrow> c4 p;
                (resr, hp5) \<leftarrow> clone ct (hp3\<lparr>cells := c4\<rparr>) (r nx4);
                case resr of
                  Inl e \<Rightarrow> Some (Inl e, hp5)
                | Inr newr \<Rightarrow> do {
                    c6 \<leftarrow> upd (cells hp5) k (\<lambda>n. n\<lparr>r := newr\<rparr>);
                    Some (Inr (Some k), hp5\<lparr>cells := c6\<rparr>)
                  }
              }
          }"
      using False pk cell by (simp add: clone_Some new_node_def upd_def c2_def)
    have rep2: "rep c2 lc"
      using lck by (intro rep_frame[OF replc]) (auto simp: c2_def)
    have wf2: "\<forall>q\<ge>Suc k. c2 q = None"
      using wf by (simp add: c2_def)
    from Br.IH(1)[OF rep2 wf2] obtain resl c3 k3
      where cl: "clone ct \<lparr>cells = c2, lim = Suc k\<rparr> (ptr_of lc) = Some (resl, \<lparr>cells = c3, lim = k3\<rparr>)"
        and postl: "clone_post ct c2 (Suc k) lc resl c3 k3"
      by blast
    have k3: "Suc k \<le> k3" and fr3: "\<And>q. q < Suc k \<Longrightarrow> c3 q = c2 q"
      and wf3: "\<And>q. k3 \<le> q \<Longrightarrow> c3 q = None"
      using postl by (simp_all add: clone_post_def)
    have fr3c: "\<And>q. q < k \<Longrightarrow> c3 q = c q"
      using fr3 by (simp add: c2_def)
    show ?thesis
    proof (cases resl)
      case (Inl e)
      then have "clone ct \<lparr>cells = c, lim = k\<rparr> (ptr_of ?t) = Some (Inl e, \<lparr>cells = c3, lim = k3\<rparr>)"
        unfolding step1 cl by simp
      moreover have "clone_post ct c k ?t (Inl e) c3 k3"
        using postl Inl k3 fr3c wf3 by (auto simp: clone_post_def)
      ultimately show ?thesis by blast
    next
      case (Inr newl)
      with postl have okl: "\<forall>x\<in>#elems lc. \<not> ct x" and newl: "newl = ptr_of (clone_t (Suc k) lc)"
        and rep3: "rep c3 (clone_t (Suc k) lc)" and k3eq: "k3 = Suc k + count_t lc"
        by (simp_all add: clone_post_def)
      define c4 where "c4 = c3(k \<mapsto> \<lparr>val = v, l = newl, r = None, npl = n\<rparr>)"
      have c3k: "c3 k = Some \<lparr>val = v, l = None, r = None, npl = n\<rparr>"
        using fr3[of k] by (simp add: c2_def)
      have c4p: "c4 p = Some \<lparr>val = v, l = ptr_of lc, r = ptr_of rc, npl = n\<rparr>"
        using pk fr3c[of p] cell by (simp add: c4_def)
      have step2: "clone ct \<lparr>cells = c, lim = k\<rparr> (ptr_of ?t) =
         do {
                (resr, hp5) \<leftarrow> clone ct \<lparr>cells = c4, lim = k3\<rparr> (ptr_of rc);
                case resr of
                  Inl e \<Rightarrow> Some (Inl e, hp5)
                | Inr newr \<Rightarrow> do {
                    c6 \<leftarrow> upd (cells hp5) k (\<lambda>n. n\<lparr>r := newr\<rparr>);
                    Some (Inr (Some k), hp5\<lparr>cells := c6\<rparr>)
                  }
          }"
        unfolding step1 cl using Inr c3k c4p by (simp add: upd_def c4_def)
      have rep4: "rep c4 rc"
        using rck fr3c by (intro rep_frame[OF reprc]) (auto simp: c4_def)
      have wf4: "\<forall>q\<ge>k3. c4 q = None"
        using wf3 k3 by (simp add: c4_def)
      from Br.IH(2)[OF rep4 wf4] obtain resr c5 k5
        where cr: "clone ct \<lparr>cells = c4, lim = k3\<rparr> (ptr_of rc) = Some (resr, \<lparr>cells = c5, lim = k5\<rparr>)"
          and postr: "clone_post ct c4 k3 rc resr c5 k5"
        by blast
      have k5: "k3 \<le> k5" and fr5: "\<And>q. q < k3 \<Longrightarrow> c5 q = c4 q"
        and wf5: "\<And>q. k5 \<le> q \<Longrightarrow> c5 q = None"
        using postr by (simp_all add: clone_post_def)
      have fr5c: "\<And>q. q < k \<Longrightarrow> c5 q = c q"
        using fr5 fr3c k3 by (simp add: c4_def)
      show ?thesis
      proof (cases resr)
        case (Inl e)
        then have "clone ct \<lparr>cells = c, lim = k\<rparr> (ptr_of ?t) = Some (Inl e, \<lparr>cells = c5, lim = k5\<rparr>)"
          unfolding step2 cr by simp
        moreover have "clone_post ct c k ?t (Inl e) c5 k5"
          using postr Inl k3 k5 fr5c wf5 by (auto simp: clone_post_def)
        ultimately show ?thesis by blast
      next
        case (Inr newr)
        with postr have okr: "\<forall>x\<in>#elems rc. \<not> ct x" and newr: "newr = ptr_of (clone_t k3 rc)"
          and rep5: "rep c5 (clone_t k3 rc)" and k5eq: "k5 = k3 + count_t rc"
          by (simp_all add: clone_post_def)
        define c6 where "c6 = c5(k \<mapsto> \<lparr>val = v, l = newl, r = newr, npl = n\<rparr>)"
        have c5k: "c5 k = Some \<lparr>val = v, l = newl, r = None, npl = n\<rparr>"
          using fr5[of k] k3 by (simp add: c4_def)
        have res: "clone ct \<lparr>cells = c, lim = k\<rparr> (ptr_of ?t) = Some (Inr (Some k), \<lparr>cells = c6, lim = k5\<rparr>)"
          unfolding step2 cr using Inr c5k by (simp add: upd_def c6_def)
        have rl: "rep c6 (clone_t (Suc k) lc)"
        proof (rule rep_frame[OF rep3])
          fix q assume "q \<in> addrs (clone_t (Suc k) lc)"
          then have "Suc k \<le> q" "q < k3" by (simp_all add: addrs_clone_t k3eq)
          then show "c6 q = c3 q" using fr5[of q] by (simp add: c6_def c4_def)
        qed
        have rr: "rep c6 (clone_t k3 rc)"
        proof (rule rep_frame[OF rep5])
          fix q assume "q \<in> addrs (clone_t k3 rc)"
          then have "k3 \<le> q" by (simp add: addrs_clone_t)
          then show "c6 q = c5 q" using k3 by (simp add: c6_def)
        qed
        have "rep c6 (clone_t k ?t)"
          using rl rr by (simp add: c6_def newl newr k3eq)
        moreover have "\<forall>q<k. c6 q = c q" using fr5c by (simp add: c6_def)
        moreover have "\<forall>q\<ge>k5. c6 q = None" using wf5 k5 k3 by (simp add: c6_def)
        ultimately have "clone_post ct c k ?t (Inr (Some k)) c6 k5"
          using okl okr False k3 k5 k3eq k5eq by (auto simp: clone_post_def)
        with res show ?thesis by blast
      qed
    qed
  qed
qed


lemma clone_refines:
  assumes "rep (cells hp) t" "\<forall>p\<ge>lim hp. cells hp p = None"
  shows "\<exists>res c' k'. clone ct hp (ptr_of t) = Some (res, \<lparr>cells = c', lim = k'\<rparr>)
        \<and> clone_post ct (cells hp) (lim hp) t res c' k'"
proof (cases hp)
  case (fields c k)
  then show ?thesis using clone_refines_aux[of c t k ct] assms by simp
qed

subsection \<open>The invariant and its frame rule\<close>

lemma world_upd_mem: "w\<lparr>mem := X\<rparr> = \<lparr>mem = X, objs = objs w\<rparr>"
  by (cases w) simp

lemma inv_lim: "state_inv cmp0 w g \<Longrightarrow> lim (mem w) \<le> p \<Longrightarrow> cells (mem w) p = None"
  unfolding state_inv_def by blast

lemma inv_Some: "state_inv cmp0 w g \<Longrightarrow> objs w i = Some q \<Longrightarrow> queue_ok cmp0 (cells (mem w)) q (g i)"
  unfolding state_inv_def by (elim conjE, erule allE[of _ i]) simp

lemma inv_None: "state_inv cmp0 w g \<Longrightarrow> objs w i = None \<Longrightarrow> g i = Tip"
  unfolding state_inv_def by (elim conjE, erule allE[of _ i]) simp

lemma inv_disjoint: "state_inv cmp0 w g \<Longrightarrow> i \<noteq> j \<Longrightarrow> addrs (g i) \<inter> addrs (g j) = {}"
  unfolding state_inv_def by blast

lemma inv_below_lim:
  assumes "state_inv cmp0 w g" "p \<in> addrs (g i)"
  shows "p < lim (mem w)"
proof (cases "objs w i")
  case None
  then show ?thesis using inv_None[OF assms(1)] assms(2) by simp
next
  case (Some q)
  then have "rep (cells (mem w)) (g i)"
    using inv_Some[OF assms(1)] by (simp add: queue_ok_def)
  then show ?thesis
    using rep_below_lim[of "cells (mem w)" "g i" "lim (mem w)" p] inv_lim[OF assms(1)] assms(2)
    by blast
qed

lemma queue_ok_frame:
  "queue_ok cmp0 h q t \<Longrightarrow> (\<And>p. p \<in> addrs t \<Longrightarrow> h' p = h p) \<Longrightarrow> queue_ok cmp0 h' q t"
  unfolding queue_ok_def using rep_frame[of h t h'] by blast

lemma inv_frame:
  assumes inv: "state_inv cmp0 w g"
    and fr: "\<And>p. p \<notin> S \<Longrightarrow> h' p = cells (mem w) p"
    and wf: "\<And>p. k' \<le> p \<Longrightarrow> h' p = None"
    and out: "\<And>i. i \<notin> I \<Longrightarrow> ob' i = objs w i \<and> g' i = g i \<and> addrs (g i) \<inter> S = {}"
    and inn: "\<And>i. i \<in> I \<Longrightarrow> addrs (g' i) \<subseteq> S \<and>
                (case ob' i of None \<Rightarrow> g' i = Tip | Some q \<Rightarrow> queue_ok cmp0 h' q (g' i))"
    and dis: "\<And>i j. i \<in> I \<Longrightarrow> j \<in> I \<Longrightarrow> i \<noteq> j \<Longrightarrow> addrs (g' i) \<inter> addrs (g' j) = {}"
  shows "state_inv cmp0 \<lparr>mem = \<lparr>cells = h', lim = k'\<rparr>, objs = ob'\<rparr> g'"
proof -
  have q: "case ob' i of None \<Rightarrow> g' i = Tip | Some q \<Rightarrow> queue_ok cmp0 h' q (g' i)" for i
  proof (cases "i \<in> I")
    case True
    then show ?thesis using inn by blast
  next
    case False
    note o = out[OF False]
    show ?thesis
    proof (cases "objs w i")
      case None
      then show ?thesis using o inv_None[OF inv None] by simp
    next
      case (Some q)
      have "queue_ok cmp0 h' q (g i)"
      proof (rule queue_ok_frame[OF inv_Some[OF inv Some]])
        fix p assume "p \<in> addrs (g i)"
        then have "p \<notin> S" using o by blast
        then show "h' p = cells (mem w) p" by (rule fr)
      qed
      then show ?thesis using o Some by simp
    qed
  qed
  have sub: "addrs (g' i) \<subseteq> S" if "i \<in> I" for i
    using inn[OF that] by (rule conjunct1)
  have off: "g' i = g i" "addrs (g i) \<inter> S = {}" if "i \<notin> I" for i
    using out[OF that] by simp_all
  have d: "addrs (g' i) \<inter> addrs (g' j) = {}" if "i \<noteq> j" for i j
  proof -
    consider "i \<in> I" "j \<in> I" | "i \<in> I" "j \<notin> I" | "i \<notin> I" "j \<in> I" | "i \<notin> I" "j \<notin> I"
      by blast
    then show ?thesis
    proof cases
      case 1
      then show ?thesis using that by (rule dis)
    next
      case 2
      then show ?thesis using sub[of i] off[of j] by auto
    next
      case 3
      then show ?thesis using sub[of j] off[of i] by auto
    next
      case 4
      then show ?thesis using off[of i] off[of j] inv_disjoint[OF inv that] by simp
    qed
  qed
  show ?thesis
    unfolding state_inv_def
  proof (intro conjI allI impI)
    fix p assume "lim (mem \<lparr>mem = \<lparr>cells = h', lim = k'\<rparr>, objs = ob'\<rparr>) \<le> p"
    then show "cells (mem \<lparr>mem = \<lparr>cells = h', lim = k'\<rparr>, objs = ob'\<rparr>) p = None"
      using wf by simp
  next
    fix i
    show "case objs \<lparr>mem = \<lparr>cells = h', lim = k'\<rparr>, objs = ob'\<rparr> i of None \<Rightarrow> g' i = Tip
          | Some q \<Rightarrow> queue_ok cmp0 (cells (mem \<lparr>mem = \<lparr>cells = h', lim = k'\<rparr>, objs = ob'\<rparr>)) q (g' i)"
      using q[of i] by (simp split: option.splits)
  next
    fix i j :: nat assume "i \<noteq> j"
    then show "addrs (g' i) \<inter> addrs (g' j) = {}" by (rule d)
  qed
qed


subsection \<open>The public functions preserve the invariant\<close>

lemma world_eq: "\<lparr>mem = \<lparr>cells = cells (mem w), lim = lim (mem w)\<rparr>, objs = objs w\<rparr> = w"
  by (cases w, cases "mem w") simp

lemma inv_same_store:
  assumes "state_inv cmp0 w g" "lim (mem w) \<le> k'"
  shows "state_inv cmp0 \<lparr>mem = \<lparr>cells = cells (mem w), lim = k'\<rparr>, objs = objs w\<rparr> g"
proof (rule inv_frame[OF assms(1), where S = "{}" and I = "{}"])
  fix p :: nat assume "k' \<le> p"
  then show "cells (mem w) p = None" using inv_lim[OF assms(1), of p] assms(2) by simp
qed simp_all

lemma push_copy_throws:
  "objs w i = Some q \<Longrightarrow> ct e \<Longrightarrow> push ct w i e = Some (Inl user_exception, w)"
  by (simp add: push_def new_node_def)

lemma push_spec:
  assumes inv: "state_inv cmp0 w g" and q: "objs w i = Some q" and ct: "\<not> ct e"
  shows "case meld_t cmp0 (g i) (Br (lim (mem w)) e 1 Tip Tip) of
           None \<Rightarrow> push ct w i e = Some (Inl runtime_error,
                     \<lparr>mem = \<lparr>cells = cells (mem w), lim = Suc (lim (mem w))\<rparr>, objs = objs w\<rparr>)
         | Some t \<Rightarrow> \<exists>w'. push ct w i e = Some (Inr (), w') \<and> state_inv cmp0 w' (g(i := t))"
proof -
  define k where "k = lim (mem w)"
  define h where "h = cells (mem w)"
  define h1 where "h1 = h(k \<mapsto> \<lparr>val = e, l = None, r = None, npl = 1\<rparr>)"
  let ?N = "Br k e 1 Tip Tip"
  note ok = inv_Some[OF inv q, unfolded queue_ok_def, folded h_def]
  have hk: "h k = None" using inv_lim[OF inv, of k] by (simp add: k_def h_def)
  have below: "\<And>j p. p \<in> addrs (g j) \<Longrightarrow> p < k"
    using inv_below_lim[OF inv] by (simp add: k_def)
  have knot: "k \<notin> addrs (g j)" for j using below[of k j] by blast
  have unfold: "push ct w i e =
     do {
           (res, c2) \<leftarrow> meld cmp0 h1 (ptr_of (g i)) (ptr_of ?N);
           case res of
             Inr p \<Rightarrow> Some (Inr (), \<lparr>mem = \<lparr>cells = c2, lim = Suc k\<rparr>,
               objs = (objs w)(i \<mapsto> q\<lparr>root := p, cnt := cnt q + 1\<rparr>)\<rparr>)
           | Inl x \<Rightarrow> do {
               c3 \<leftarrow> delete_node c2 k;
               Some (Inl runtime_error, \<lparr>mem = \<lparr>cells = c3, lim = Suc k\<rparr>, objs = objs w\<rparr>)
             }
         }"
    using q ct ok by (simp add: push_def new_node_def h1_def h_def k_def cong: sum.case_cong)
  have rep1: "rep h1 (g i)"
    using ok knot[of i] by (simp add: h1_def rep_upd_other)
  have repN: "rep h1 ?N" by (simp add: h1_def)
  have shaped: "tree_shaped (g i)" "tree_shaped ?N" "addrs (g i) \<inter> addrs ?N = {}"
    using ok knot[of i] by simp_all
  note mr = meld_refines[OF rep1 repN shaped, of cmp0]
  show ?thesis
  proof (cases "meld_t cmp0 (g i) ?N")
    case None
    with mr have m: "meld cmp0 h1 (ptr_of (g i)) (ptr_of ?N) = Some (Inl user_exception, h1)"
      by simp
    have "h1(k := None) = h" using hk by (auto simp: h1_def fun_eq_iff)
    then have "delete_node h1 k = Some h" by (simp add: delete_node_def h1_def)
    then show ?thesis using None unfolding unfold m
      by (simp add: k_def[symmetric] h_def[symmetric])
  next
    case (Some t)
    with mr obtain h' where m: "meld cmp0 h1 (ptr_of (g i)) (ptr_of ?N) = Some (Inr (ptr_of t), h')"
      and rept: "rep h' t" and fr: "\<And>p. p \<notin> addrs (g i) \<union> addrs ?N \<Longrightarrow> h' p = h1 p"
      by auto
    define w' where "w' = \<lparr>mem = \<lparr>cells = h', lim = Suc k\<rparr>,
               objs = (objs w)(i \<mapsto> q\<lparr>root := ptr_of t, cnt := cnt q + 1\<rparr>)\<rparr>"
    have res: "push ct w i e = Some (Inr (), w')"
      unfolding unfold m by (simp add: w'_def)
    have at: "addrs t = addrs (g i) \<union> addrs ?N" using meld_t_addrs[OF Some] by (simp add: k_def)
    have tok: "queue_ok cmp0 h' (q\<lparr>root := ptr_of t, cnt := cnt q + 1\<rparr>) t"
      unfolding queue_ok_def
      using rept meld_t_shaped[OF Some[unfolded k_def[symmetric]]] shaped ok
        meld_t_count[OF Some] meld_t_leftist[OF Some]
      by simp
    have "state_inv cmp0 w' (g(i := t))"
      unfolding w'_def
    proof (rule inv_frame[OF inv, where S = "insert k (addrs (g i))" and I = "{i}"])
      fix p assume "p \<notin> insert k (addrs (g i))"
      then show "h' p = cells (mem w) p" using fr[of p] by (simp add: h1_def h_def)
    next
      fix p assume "Suc k \<le> p"
      then have "p \<notin> addrs (g i) \<union> addrs ?N" using below[of p i] by auto
      then have "h' p = h1 p" by (rule fr)
      then show "h' p = None" using inv_lim[OF inv, of p] \<open>Suc k \<le> p\<close>
        by (simp add: h1_def h_def k_def)
    next
      fix j assume "j \<notin> {i}"
      then show "((objs w)(i \<mapsto> q\<lparr>root := ptr_of t, cnt := cnt q + 1\<rparr>)) j = objs w j \<and>
         (g(i := t)) j = g j \<and> addrs (g j) \<inter> insert k (addrs (g i)) = {}"
        using inv_disjoint[OF inv, of j i] knot[of j] by auto
    next
      fix j assume "j \<in> {i}"
      then show "addrs ((g(i := t)) j) \<subseteq> insert k (addrs (g i)) \<and>
         (case ((objs w)(i \<mapsto> q\<lparr>root := ptr_of t, cnt := cnt q + 1\<rparr>)) j of
            None \<Rightarrow> (g(i := t)) j = Tip
          | Some q \<Rightarrow> queue_ok cmp0 h' q ((g(i := t)) j))"
        using at tok by auto
    qed simp
    with res Some show ?thesis by (auto simp: k_def)
  qed
qed

lemma heap_upd_cells: "hp\<lparr>cells := c\<rparr> = \<lparr>cells = c, lim = lim hp\<rparr>"
  by (cases hp) simp

lemma pop_empty:
  "objs w i = Some q \<Longrightarrow> cnt q = 0 \<Longrightarrow> pop w i = Some (Inl container_is_empty, w)"
  by (simp add: pop_def empty_pq_def)

lemma pop_spec:
  assumes inv: "state_inv cmp0 w g" and q: "objs w i = Some q" and ne: "cnt q \<noteq> 0"
  shows "case g i of
           Tip \<Rightarrow> False
         | Br p v n lc rc \<Rightarrow>
            (case meld_t cmp0 lc rc of
               None \<Rightarrow> pop w i = Some (Inl runtime_error, w)
             | Some t \<Rightarrow> \<exists>w'. pop w i = Some (Inr (), w') \<and> state_inv cmp0 w' (g(i := t)))"
proof -
  define h where "h = cells (mem w)"
  note ok = inv_Some[OF inv q, unfolded queue_ok_def, folded h_def]
  from ok ne obtain p v n lc rc where gi: "g i = Br p v n lc rc"
    by (cases "g i") auto
  have root: "root q = Some p" and cell: "h p = Some \<lparr>val = v, l = ptr_of lc, r = ptr_of rc, npl = n\<rparr>"
    and replc: "rep h lc" and reprc: "rep h rc"
    and shaped: "tree_shaped lc" "tree_shaped rc" "addrs lc \<inter> addrs rc = {}"
    and pnot: "p \<notin> addrs lc" "p \<notin> addrs rc"
    using ok gi by simp_all
  have unfold: "pop w i =
     do {
         (res, c1) \<leftarrow> meld cmp0 h (ptr_of lc) (ptr_of rc);
         case res of
           Inr p' \<Rightarrow> do {
             c2 \<leftarrow> delete_node c1 p;
             Some (Inr (), \<lparr>mem = \<lparr>cells = c2, lim = lim (mem w)\<rparr>,
               objs = (objs w)(i \<mapsto> q\<lparr>root := p', cnt := cnt q - 1\<rparr>)\<rparr>)
           }
         | Inl x \<Rightarrow> Some (Inl runtime_error, \<lparr>mem = \<lparr>cells = c1, lim = lim (mem w)\<rparr>,
             objs = (objs w)(i \<mapsto> q\<lparr>root := Some p\<rparr>)\<rparr>)
       }"
    using q ne ok root cell
    by (simp add: pop_def empty_pq_def h_def[symmetric] heap_upd_cells cong: sum.case_cong)
  note mr = meld_refines[OF replc reprc shaped, of cmp0]
  show ?thesis
  proof (cases "meld_t cmp0 lc rc")
    case None
    with mr have m: "meld cmp0 h (ptr_of lc) (ptr_of rc) = Some (Inl user_exception, h)"
      by simp
    have "q\<lparr>root := Some p\<rparr> = q" using root by simp
    then have "(objs w)(i \<mapsto> q\<lparr>root := Some p\<rparr>) = objs w" using q by (simp add: fun_upd_idem)
    then have "pop w i = Some (Inl runtime_error, w)"
      unfolding unfold m by (simp add: h_def world_eq)
    then show ?thesis using gi None by simp
  next
    case (Some t)
    with mr obtain h' where m: "meld cmp0 h (ptr_of lc) (ptr_of rc) = Some (Inr (ptr_of t), h')"
      and rept: "rep h' t" and fr: "\<And>x. x \<notin> addrs lc \<union> addrs rc \<Longrightarrow> h' x = h x"
      by auto
    define w' where "w' = \<lparr>mem = \<lparr>cells = h'(p := None), lim = lim (mem w)\<rparr>,
               objs = (objs w)(i \<mapsto> q\<lparr>root := ptr_of t, cnt := cnt q - 1\<rparr>)\<rparr>"
    have "h' p = h p" using fr[of p] pnot by simp
    then have del: "delete_node h' p = Some (h'(p := None))"
      using cell by (simp add: delete_node_def)
    have res: "pop w i = Some (Inr (), w')"
      unfolding unfold m using del by (simp add: w'_def)
    have at: "addrs t = addrs lc \<union> addrs rc" using meld_t_addrs[OF Some] .
    have tok: "queue_ok cmp0 (h'(p := None)) (q\<lparr>root := ptr_of t, cnt := cnt q - 1\<rparr>) t"
      unfolding queue_ok_def
      using rept meld_t_shaped[OF Some] shaped ok gi pnot at
        meld_t_count[OF Some] meld_t_leftist[OF Some]
      by (simp add: rep_upd_other)
    have "state_inv cmp0 w' (g(i := t))"
      unfolding w'_def
    proof (rule inv_frame[OF inv, where S = "addrs (g i)" and I = "{i}"])
      fix x assume "x \<notin> addrs (g i)"
      then show "(h'(p := None)) x = cells (mem w) x" using fr[of x] gi by (simp add: h_def)
    next
      fix x assume "lim (mem w) \<le> x"
      then have "x \<notin> addrs (g i)" using inv_below_lim[OF inv, of x i] by auto
      then have "(h'(p := None)) x = h x" using fr[of x] gi by simp
      then show "(h'(p := None)) x = None" using inv_lim[OF inv \<open>lim (mem w) \<le> x\<close>]
        by (simp add: h_def)
    next
      fix j assume "j \<notin> {i}"
      then show "((objs w)(i \<mapsto> q\<lparr>root := ptr_of t, cnt := cnt q - 1\<rparr>)) j = objs w j \<and>
         (g(i := t)) j = g j \<and> addrs (g j) \<inter> addrs (g i) = {}"
        using inv_disjoint[OF inv, of j i] by auto
    next
      fix j assume "j \<in> {i}"
      then show "addrs ((g(i := t)) j) \<subseteq> addrs (g i) \<and>
         (case ((objs w)(i \<mapsto> q\<lparr>root := ptr_of t, cnt := cnt q - 1\<rparr>)) j of
            None \<Rightarrow> (g(i := t)) j = Tip
          | Some q \<Rightarrow> queue_ok cmp0 (h'(p := None)) q ((g(i := t)) j))"
        using at tok gi by auto
    qed simp
    with res Some gi show ?thesis by auto
  qed
qed

lemma merge_noop:
  "objs w i = Some q \<Longrightarrow> objs w j = Some ot \<Longrightarrow> i = j \<or> cnt ot = 0
     \<Longrightarrow> merge_pq w i j = Some (Inr (), w)"
  by (auto simp: merge_pq_def empty_pq_def)

lemma merge_spec:
  assumes inv: "state_inv cmp0 w g" and q: "objs w i = Some q" and ot: "objs w j = Some ot"
    and ne: "i \<noteq> j" "cnt ot \<noteq> 0"
  shows "case meld_t cmp0 (g i) (g j) of
           None \<Rightarrow> merge_pq w i j = Some (Inl runtime_error, w)
         | Some t \<Rightarrow> \<exists>w'. merge_pq w i j = Some (Inr (), w') \<and> state_inv cmp0 w' (g(i := t, j := Tip))"
proof -
  define h where "h = cells (mem w)"
  note oki = inv_Some[OF inv q, unfolded queue_ok_def, folded h_def]
  note okj = inv_Some[OF inv ot, unfolded queue_ok_def, folded h_def]
  have dis: "addrs (g i) \<inter> addrs (g j) = {}" using inv_disjoint[OF inv ne(1)] .
  have unfold: "merge_pq w i j =
     do {
         (res, c1) \<leftarrow> meld cmp0 h (ptr_of (g i)) (ptr_of (g j));
         case res of
           Inr p \<Rightarrow> Some (Inr (), \<lparr>mem = \<lparr>cells = c1, lim = lim (mem w)\<rparr>,
             objs = (objs w)(i \<mapsto> q\<lparr>root := p, cnt := cnt q + cnt ot\<rparr>,
                             j \<mapsto> ot\<lparr>root := None, cnt := 0\<rparr>)\<rparr>)
         | Inl x \<Rightarrow> Some (Inl runtime_error, \<lparr>mem = \<lparr>cells = c1, lim = lim (mem w)\<rparr>, objs = objs w\<rparr>)
       }"
    using q ot ne oki okj
    by (simp add: merge_pq_def empty_pq_def h_def[symmetric] heap_upd_cells world_upd_mem
        cong: sum.case_cong)
  have pre: "rep h (g i)" "rep h (g j)" "tree_shaped (g i)" "tree_shaped (g j)"
    using oki okj by simp_all
  note mr = meld_refines[OF pre dis, of cmp0]
  show ?thesis
  proof (cases "meld_t cmp0 (g i) (g j)")
    case None
    with mr have m: "meld cmp0 h (ptr_of (g i)) (ptr_of (g j)) = Some (Inl user_exception, h)"
      by simp
    have "merge_pq w i j = Some (Inl runtime_error, w)"
      unfolding unfold m by (simp add: h_def world_eq)
    then show ?thesis using None by simp
  next
    case (Some t)
    with mr obtain h' where m: "meld cmp0 h (ptr_of (g i)) (ptr_of (g j)) = Some (Inr (ptr_of t), h')"
      and rept: "rep h' t" and fr: "\<And>x. x \<notin> addrs (g i) \<union> addrs (g j) \<Longrightarrow> h' x = h x"
      by auto
    let ?ob = "(objs w)(i \<mapsto> q\<lparr>root := ptr_of t, cnt := cnt q + cnt ot\<rparr>,
                             j \<mapsto> ot\<lparr>root := None, cnt := 0\<rparr>)"
    define w' where "w' = \<lparr>mem = \<lparr>cells = h', lim = lim (mem w)\<rparr>, objs = ?ob\<rparr>"
    have res: "merge_pq w i j = Some (Inr (), w')"
      unfolding unfold m by (simp add: w'_def)
    have at: "addrs t = addrs (g i) \<union> addrs (g j)" using meld_t_addrs[OF Some] .
    have tok: "queue_ok cmp0 h' (q\<lparr>root := ptr_of t, cnt := cnt q + cnt ot\<rparr>) t"
      unfolding queue_ok_def
      using rept meld_t_shaped[OF Some] dis oki okj meld_t_count[OF Some] meld_t_leftist[OF Some]
      by simp
    have eok: "queue_ok cmp0 h' (ot\<lparr>root := None, cnt := 0\<rparr>) Tip"
      unfolding queue_ok_def using okj by simp
    have "state_inv cmp0 w' (g(i := t, j := Tip))"
      unfolding w'_def
    proof (rule inv_frame[OF inv, where S = "addrs (g i) \<union> addrs (g j)" and I = "{i, j}"])
      fix x assume "x \<notin> addrs (g i) \<union> addrs (g j)"
      then show "h' x = cells (mem w) x" using fr[of x] by (simp add: h_def)
    next
      fix x assume lx: "lim (mem w) \<le> x"
      then have "x \<notin> addrs (g i) \<union> addrs (g j)"
        using inv_below_lim[OF inv, of x i] inv_below_lim[OF inv, of x j] by auto
      then have "h' x = h x" by (rule fr)
      then show "h' x = None" using inv_lim[OF inv lx] by (simp add: h_def)
    next
      fix k assume "k \<notin> {i, j}"
      then show "?ob k = objs w k \<and> (g(i := t, j := Tip)) k = g k \<and>
         addrs (g k) \<inter> (addrs (g i) \<union> addrs (g j)) = {}"
        using inv_disjoint[OF inv, of k i] inv_disjoint[OF inv, of k j] by auto
    next
      fix k assume "k \<in> {i, j}"
      then show "addrs ((g(i := t, j := Tip)) k) \<subseteq> addrs (g i) \<union> addrs (g j) \<and>
         (case ?ob k of
            None \<Rightarrow> (g(i := t, j := Tip)) k = Tip
          | Some q \<Rightarrow> queue_ok cmp0 h' q ((g(i := t, j := Tip)) k))"
        using at tok eok ne by auto
    next
      fix k k' assume "k \<in> {i, j}" "k' \<in> {i, j}" "k \<noteq> k'"
      then show "addrs ((g(i := t, j := Tip)) k) \<inter> addrs ((g(i := t, j := Tip)) k') = {}"
        using ne by auto
    qed
    with res Some show ?thesis by auto
  qed
qed


lemma inv_above_lim: "state_inv cmp0 w g \<Longrightarrow> lim (mem w) \<le> p \<Longrightarrow> p \<notin> addrs (g i)"
  using inv_below_lim[of cmp0 w g p i] by auto

lemma construct_spec:
  assumes inv: "state_inv cmp0 w g" and q: "objs w i = None"
  shows "\<exists>w'. construct cmp0 w i = Some (Inr (), w') \<and> state_inv cmp0 w' g"
proof -
  let ?ob = "(objs w)(i \<mapsto> \<lparr>root = None, cnt = 0, comp_f = cmp0\<rparr>)"
  have res: "construct cmp0 w i = Some (Inr (), \<lparr>mem = \<lparr>cells = cells (mem w), lim = lim (mem w)\<rparr>, objs = ?ob\<rparr>)"
    using q by (cases w, cases "mem w") (simp add: construct_def)
  have "state_inv cmp0 \<lparr>mem = \<lparr>cells = cells (mem w), lim = lim (mem w)\<rparr>, objs = ?ob\<rparr> g"
  proof (rule inv_frame[OF inv, where S = "{}" and I = "{i}"])
    fix p assume "lim (mem w) \<le> p"
    then show "cells (mem w) p = None" by (rule inv_lim[OF inv])
  next
    fix j assume "j \<in> {i}"
    then show "addrs (g j) \<subseteq> {} \<and> (case ?ob j of None \<Rightarrow> g j = Tip
          | Some q \<Rightarrow> queue_ok cmp0 (cells (mem w)) q (g j))"
      using inv_None[OF inv q] by (simp add: queue_ok_def)
  qed auto
  with res show ?thesis by blast
qed

lemma destroy_spec:
  assumes inv: "state_inv cmp0 w g" and q: "objs w i = Some q"
  shows "\<exists>w'. destroy w i = Some (Inr (), w') \<and> state_inv cmp0 w' (g(i := Tip))"
proof -
  define h where "h = cells (mem w)"
  define h' where "h' = (\<lambda>x. if x \<in> addrs (g i) then None else h x)"
  note ok = inv_Some[OF inv q, unfolded queue_ok_def, folded h_def]
  have "clear h (ptr_of (g i)) = Some h'"
    using clear_refines[of h "g i"] ok by (simp add: h'_def)
  then have res: "destroy w i = Some (Inr (), \<lparr>mem = \<lparr>cells = h', lim = lim (mem w)\<rparr>, objs = (objs w)(i := None)\<rparr>)"
    using q ok by (simp add: destroy_def h_def[symmetric] heap_upd_cells)
  have "state_inv cmp0 \<lparr>mem = \<lparr>cells = h', lim = lim (mem w)\<rparr>, objs = (objs w)(i := None)\<rparr> (g(i := Tip))"
  proof (rule inv_frame[OF inv, where S = "addrs (g i)" and I = "{i}"])
    fix x assume "x \<notin> addrs (g i)"
    then show "h' x = cells (mem w) x" by (simp add: h'_def h_def)
  next
    fix x assume "lim (mem w) \<le> x"
    then show "h' x = None" using inv_lim[OF inv, of x] by (simp add: h'_def h_def)
  next
    fix j assume "j \<notin> {i}"
    then show "((objs w)(i := None)) j = objs w j \<and> (g(i := Tip)) j = g j \<and>
        addrs (g j) \<inter> addrs (g i) = {}"
      using inv_disjoint[OF inv, of j i] by auto
  qed auto
  with res show ?thesis by blast
qed

text \<open>The two outcomes of a clone of the tree of queue j, in a state that satisfies the invariant.\<close>

lemma clone_in_inv:
  assumes inv: "state_inv cmp0 w g" and ot: "objs w j = Some ot"
  shows "\<exists>res c' k'. clone ct (mem w) (root ot) = Some (res, \<lparr>cells = c', lim = k'\<rparr>)
            \<and> clone_post ct (cells (mem w)) (lim (mem w)) (g j) res c' k'"
proof -
  note ok = inv_Some[OF inv ot, unfolded queue_ok_def]
  have "\<forall>p\<ge>lim (mem w). cells (mem w) p = None" using inv_lim[OF inv] by blast
  from clone_refines[OF _ this, of "g j" ct] ok show ?thesis by simp
qed

lemma inv_after_failed_clone:
  assumes inv: "state_inv cmp0 w g" and post: "clone_post ct (cells (mem w)) (lim (mem w)) t res c' k'"
  shows "state_inv cmp0 \<lparr>mem = \<lparr>cells = c', lim = k'\<rparr>, objs = objs w\<rparr> g"
proof (rule inv_frame[OF inv, where S = "{p. lim (mem w) \<le> p}" and I = "{}"])
  fix p assume "p \<notin> {p. lim (mem w) \<le> p}"
  then show "c' p = cells (mem w) p" using post by (simp add: clone_post_def)
next
  fix p assume "k' \<le> p"
  then show "c' p = None" using post by (simp add: clone_post_def)
next
  fix i assume "i \<notin> ({} :: nat set)"
  show "objs w i = objs w i \<and> g i = g i \<and> addrs (g i) \<inter> {p. lim (mem w) \<le> p} = {}"
    using inv_above_lim[OF inv, of _ i] by auto
qed auto

lemma copy_construct_spec:
  assumes inv: "state_inv cmp0 w g" and q: "objs w i = None" and ot: "objs w j = Some ot"
  shows "\<exists>res w'. copy_construct ct w i j = Some (res, w') \<and>
           (case res of
              Inl e \<Rightarrow> state_inv cmp0 w' g
            | Inr u \<Rightarrow> state_inv cmp0 w' (g(i := clone_t (lim (mem w)) (g j))))"
proof -
  define k where "k = lim (mem w)"
  from clone_in_inv[OF inv ot, of ct] obtain res c' k'
    where cl: "clone ct (mem w) (root ot) = Some (res, \<lparr>cells = c', lim = k'\<rparr>)"
      and post: "clone_post ct (cells (mem w)) k (g j) res c' k'"
    by (auto simp: k_def)
  note okj = inv_Some[OF inv ot, unfolded queue_ok_def]
  show ?thesis
  proof (cases res)
    case (Inl e)
    then have "copy_construct ct w i j = Some (Inl e, \<lparr>mem = \<lparr>cells = c', lim = k'\<rparr>, objs = objs w\<rparr>)"
      using q ot cl by (simp add: copy_construct_def world_upd_mem)
    moreover have "state_inv cmp0 \<lparr>mem = \<lparr>cells = c', lim = k'\<rparr>, objs = objs w\<rparr> g"
      using inv_after_failed_clone[OF inv post[unfolded k_def]] .
    ultimately show ?thesis by auto
  next
    case (Inr x)
    let ?t = "clone_t k (g j)"
    let ?ob = "(objs w)(i \<mapsto> \<lparr>root = x, cnt = cnt ot, comp_f = comp_f ot\<rparr>)"
    from post Inr have x: "x = ptr_of ?t" and rept: "rep c' ?t" and k': "k' = k + count_t (g j)"
      and fr: "\<And>p. p < k \<Longrightarrow> c' p = cells (mem w) p" and wf: "\<And>p. k' \<le> p \<Longrightarrow> c' p = None"
      by (simp_all add: clone_post_def)
    have res: "copy_construct ct w i j = Some (Inr (), \<lparr>mem = \<lparr>cells = c', lim = k'\<rparr>, objs = ?ob\<rparr>)"
      using q ot cl Inr by (simp add: copy_construct_def)
    have tok: "queue_ok cmp0 c' \<lparr>root = x, cnt = cnt ot, comp_f = comp_f ot\<rparr> ?t"
      unfolding queue_ok_def
      using x rept okj by (simp add: tree_shaped_clone_t count_clone_t leftist_clone_t)
    have "state_inv cmp0 \<lparr>mem = \<lparr>cells = c', lim = k'\<rparr>, objs = ?ob\<rparr> (g(i := ?t))"
    proof (rule inv_frame[OF inv, where S = "{p. k \<le> p}" and I = "{i}"])
      fix p assume "p \<notin> {p. k \<le> p}"
      then show "c' p = cells (mem w) p" using fr[of p] by simp
    next
      fix p assume "k' \<le> p"
      then show "c' p = None" by (rule wf)
    next
      fix m assume "m \<notin> {i}"
      then show "?ob m = objs w m \<and> (g(i := ?t)) m = g m \<and> addrs (g m) \<inter> {p. k \<le> p} = {}"
        using inv_above_lim[OF inv, of _ m] by (auto simp: k_def)
    next
      fix m assume "m \<in> {i}"
      then show "addrs ((g(i := ?t)) m) \<subseteq> {p. k \<le> p} \<and>
         (case ?ob m of None \<Rightarrow> (g(i := ?t)) m = Tip | Some q \<Rightarrow> queue_ok cmp0 c' q ((g(i := ?t)) m))"
        using tok by (auto simp: addrs_clone_t)
    qed auto
    with res Inr show ?thesis by (auto simp: k_def)
  qed
qed

lemma assign_self: "objs w i = Some q \<Longrightarrow> assign ct w i i = Some (Inr i, w)"
  by (simp add: assign_def)

lemma assign_spec:
  assumes inv: "state_inv cmp0 w g" and q: "objs w i = Some q" and ot: "objs w j = Some ot"
    and ne: "i \<noteq> j"
  shows "\<exists>res w'. assign ct w i j = Some (res, w') \<and>
           (case res of
              Inl e \<Rightarrow> state_inv cmp0 w' g
            | Inr u \<Rightarrow> state_inv cmp0 w' (g(i := clone_t (lim (mem w)) (g j))))"
proof -
  define k where "k = lim (mem w)"
  from clone_in_inv[OF inv ot, of ct] obtain res c' k'
    where cl: "clone ct (mem w) (root ot) = Some (res, \<lparr>cells = c', lim = k'\<rparr>)"
      and post: "clone_post ct (cells (mem w)) k (g j) res c' k'"
    by (auto simp: k_def)
  note oki = inv_Some[OF inv q, unfolded queue_ok_def]
  note okj = inv_Some[OF inv ot, unfolded queue_ok_def]
  show ?thesis
  proof (cases res)
    case (Inl e)
    then have "assign ct w i j = Some (Inl e, \<lparr>mem = \<lparr>cells = c', lim = k'\<rparr>, objs = objs w\<rparr>)"
      using q ot ne cl by (simp add: assign_def world_upd_mem)
    moreover have "state_inv cmp0 \<lparr>mem = \<lparr>cells = c', lim = k'\<rparr>, objs = objs w\<rparr> g"
      using inv_after_failed_clone[OF inv post[unfolded k_def]] .
    ultimately show ?thesis by auto
  next
    case (Inr x)
    let ?t = "clone_t k (g j)"
    let ?ob = "(objs w)(i \<mapsto> \<lparr>root = x, cnt = cnt ot, comp_f = comp_f ot\<rparr>)"
    define c'' where "c'' = (\<lambda>p. if p \<in> addrs (g i) then None else c' p)"
    from post Inr have x: "x = ptr_of ?t" and rept: "rep c' ?t" and k': "k' = k + count_t (g j)"
      and fr: "\<And>p. p < k \<Longrightarrow> c' p = cells (mem w) p" and wf: "\<And>p. k' \<le> p \<Longrightarrow> c' p = None"
      by (simp_all add: clone_post_def)
    have below: "\<And>p. p \<in> addrs (g i) \<Longrightarrow> p < k"
      unfolding k_def by (rule inv_below_lim[OF inv])
    have "rep c' (g i)"
    proof (rule rep_frame[of "cells (mem w)"])
      show "rep (cells (mem w)) (g i)" using oki by simp
      fix p assume "p \<in> addrs (g i)"
      then show "c' p = cells (mem w) p" using fr[of p] below[of p] by simp
    qed
    then have "clear c' (ptr_of (g i)) = Some c''"
      using clear_refines[of c' "g i"] oki by (simp add: c''_def)
    then have res: "assign ct w i j = Some (Inr i, \<lparr>mem = \<lparr>cells = c'', lim = k'\<rparr>, objs = ?ob\<rparr>)"
      using q ot ne cl Inr oki by (simp add: assign_def)
    have "rep c'' ?t"
    proof (rule rep_frame[OF rept])
      fix p assume "p \<in> addrs ?t"
      then have "k \<le> p" by (simp add: addrs_clone_t)
      then have "p \<notin> addrs (g i)" using below[of p] by auto
      then show "c'' p = c' p" by (simp add: c''_def)
    qed
    then have tok: "queue_ok cmp0 c'' \<lparr>root = x, cnt = cnt ot, comp_f = comp_f ot\<rparr> ?t"
      unfolding queue_ok_def
      using x okj by (simp add: tree_shaped_clone_t count_clone_t leftist_clone_t)
    have "state_inv cmp0 \<lparr>mem = \<lparr>cells = c'', lim = k'\<rparr>, objs = ?ob\<rparr> (g(i := ?t))"
    proof (rule inv_frame[OF inv, where S = "{p. k \<le> p} \<union> addrs (g i)" and I = "{i}"])
      fix p assume "p \<notin> {p. k \<le> p} \<union> addrs (g i)"
      then show "c'' p = cells (mem w) p" using fr[of p] by (simp add: c''_def)
    next
      fix p assume "k' \<le> p"
      then show "c'' p = None" using wf[of p] by (simp add: c''_def)
    next
      fix m assume "m \<notin> {i}"
      then show "?ob m = objs w m \<and> (g(i := ?t)) m = g m \<and>
          addrs (g m) \<inter> ({p. k \<le> p} \<union> addrs (g i)) = {}"
        using inv_above_lim[OF inv, of _ m] inv_disjoint[OF inv, of m i] by (auto simp: k_def)
    next
      fix m assume "m \<in> {i}"
      then show "addrs ((g(i := ?t)) m) \<subseteq> {p. k \<le> p} \<union> addrs (g i) \<and>
         (case ?ob m of None \<Rightarrow> (g(i := ?t)) m = Tip | Some q \<Rightarrow> queue_ok cmp0 c'' q ((g(i := ?t)) m))"
        using tok by (auto simp: addrs_clone_t)
    qed auto
    with res Inr show ?thesis by (auto simp: k_def)
  qed
qed


subsection \<open>Every reachable state satisfies the invariant\<close>

lemma all_heap_ordered_upd:
  assumes "all_heap_ordered cmp0 g" "\<And>lt. sound cmp0 lt \<Longrightarrow> heap_order lt t"
  shows "all_heap_ordered cmp0 (g(i := t))"
  using assms unfolding all_heap_ordered_def by simp

lemma all_heap_orderedD: "all_heap_ordered cmp0 g \<Longrightarrow> sound cmp0 lt \<Longrightarrow> heap_order lt (g i)"
  unfolding all_heap_ordered_def by blast

lemma inv_start: "state_inv cmp0 start (\<lambda>i. Tip)"
  by (simp add: state_inv_def start_def)

lemma construct_Some: "construct cmp0 w i = Some y \<Longrightarrow> objs w i = None"
  by (cases "objs w i") (simp_all add: construct_def)

lemma copy_construct_Some:
  "copy_construct ct w i j = Some y \<Longrightarrow> objs w i = None \<and> (\<exists>ot. objs w j = Some ot)"
  by (cases "objs w i"; cases "objs w j") (simp_all add: copy_construct_def)

lemma assign_Some: "assign ct w i j = Some y \<Longrightarrow> (\<exists>q. objs w i = Some q) \<and> (\<exists>ot. objs w j = Some ot)"
  by (cases "objs w i"; cases "objs w j") (simp_all add: assign_def)

lemma destroy_Some: "destroy w i = Some y \<Longrightarrow> \<exists>q. objs w i = Some q"
  by (cases "objs w i") (simp_all add: destroy_def)

lemma push_Some: "push ct w i e = Some y \<Longrightarrow> \<exists>q. objs w i = Some q"
  by (cases "objs w i") (simp_all add: push_def)

lemma pop_Some: "pop w i = Some y \<Longrightarrow> \<exists>q. objs w i = Some q"
  by (cases "objs w i") (simp_all add: pop_def)

lemma merge_Some: "merge_pq w i j = Some y \<Longrightarrow> (\<exists>q. objs w i = Some q) \<and> (\<exists>ot. objs w j = Some ot)"
  by (cases "objs w i"; cases "objs w j") (simp_all add: merge_pq_def)

lemma reachable_inv:
  assumes "reachable cmp0 ct w"
  shows "\<exists>g. state_inv cmp0 w g \<and> all_heap_ordered cmp0 g"
  using assms
proof (induction rule: reachable.induct)
  case by_start
  have "all_heap_ordered cmp0 (\<lambda>i. Tip)" by (simp add: all_heap_ordered_def)
  with inv_start show ?case by blast
next
  case (by_construct w this res w')
  then obtain g where g: "state_inv cmp0 w g" "all_heap_ordered cmp0 g" by blast
  from construct_spec[OF g(1) construct_Some[OF by_construct(2)]] by_construct(2) g(2)
  show ?case by auto
next
  case (by_copy_construct w this other res w')
  then obtain g where g: "state_inv cmp0 w g" "all_heap_ordered cmp0 g" by blast
  from copy_construct_Some[OF by_copy_construct(2)] obtain ot
    where q: "objs w this = None" and ot: "objs w other = Some ot" by blast
  from copy_construct_spec[OF g(1) q ot, of ct] by_copy_construct(2)
  have "case res of Inl e \<Rightarrow> state_inv cmp0 w' g
        | Inr u \<Rightarrow> state_inv cmp0 w' (g(this := clone_t (lim (mem w)) (g other)))"
    by auto
  moreover have "all_heap_ordered cmp0 (g(this := clone_t (lim (mem w)) (g other)))"
    by (rule all_heap_ordered_upd[OF g(2)]) (simp add: heap_order_clone_t all_heap_orderedD[OF g(2)])
  ultimately show ?case using g(2) by (cases res) auto
next
  case (by_assign w this other resa w')
  then obtain g where g: "state_inv cmp0 w g" "all_heap_ordered cmp0 g" by blast
  from assign_Some[OF by_assign(2)] obtain q ot
    where q: "objs w this = Some q" and ot: "objs w other = Some ot" by blast
  show ?case
  proof (cases "this = other")
    case True
    then have "w' = w" using assign_self[OF q, of ct] by_assign(2) by simp
    then show ?thesis using g by blast
  next
    case False
    from assign_spec[OF g(1) q ot False, of ct] by_assign(2)
    have "case resa of Inl e \<Rightarrow> state_inv cmp0 w' g
          | Inr u \<Rightarrow> state_inv cmp0 w' (g(this := clone_t (lim (mem w)) (g other)))"
      by auto
    moreover have "all_heap_ordered cmp0 (g(this := clone_t (lim (mem w)) (g other)))"
      by (rule all_heap_ordered_upd[OF g(2)]) (simp add: heap_order_clone_t all_heap_orderedD[OF g(2)])
    ultimately show ?thesis using g(2) by (cases resa) auto
  qed
next
  case (by_destroy w this res w')
  then obtain g where g: "state_inv cmp0 w g" "all_heap_ordered cmp0 g" by blast
  from destroy_Some[OF by_destroy(2)] obtain q where q: "objs w this = Some q" by blast
  from destroy_spec[OF g(1) q] by_destroy(2) have "state_inv cmp0 w' (g(this := Tip))" by auto
  moreover have "all_heap_ordered cmp0 (g(this := Tip))"
    by (rule all_heap_ordered_upd[OF g(2)]) simp
  ultimately show ?case by blast
next
  case (by_push w this e res w')
  then obtain g where g: "state_inv cmp0 w g" "all_heap_ordered cmp0 g" by blast
  from push_Some[OF by_push(2)] obtain q where q: "objs w this = Some q" by blast
  show ?case
  proof (cases "ct e")
    case True
    then have "w' = w" using push_copy_throws[OF q, of ct e] by_push(2) by simp
    then show ?thesis using g by blast
  next
    case False
    let ?N = "Br (lim (mem w)) e 1 Tip Tip"
    note sp = push_spec[where ct = ct and e = e, OF g(1) q False]
    show ?thesis
    proof (cases "meld_t cmp0 (g this) ?N")
      case None
      with sp by_push(2)
      have "w' = \<lparr>mem = \<lparr>cells = cells (mem w), lim = Suc (lim (mem w))\<rparr>, objs = objs w\<rparr>"
        by simp
      then have "state_inv cmp0 w' g" using inv_same_store[OF g(1), of "Suc (lim (mem w))"] by simp
      then show ?thesis using g(2) by blast
    next
      case (Some t)
      with sp by_push(2) have "state_inv cmp0 w' (g(this := t))" by auto
      moreover have "all_heap_ordered cmp0 (g(this := t))"
      proof (rule all_heap_ordered_upd[OF g(2)])
        fix lt assume s: "sound cmp0 lt"
        show "heap_order lt t"
          by (rule meld_t_heap_order[OF Some s all_heap_orderedD[OF g(2) s]]) simp
      qed
      ultimately show ?thesis by blast
    qed
  qed
next
  case (by_pop w this res w')
  then obtain g where g: "state_inv cmp0 w g" "all_heap_ordered cmp0 g" by blast
  from pop_Some[OF by_pop(2)] obtain q where q: "objs w this = Some q" by blast
  show ?case
  proof (cases "cnt q = 0")
    case True
    then have "w' = w" using pop_empty[OF q] by_pop(2) by simp
    then show ?thesis using g by blast
  next
    case False
    note sp = pop_spec[OF g(1) q False]
    then obtain p v n lc rc where gi: "g this = Br p v n lc rc"
      by (cases "g this") auto
    show ?thesis
    proof (cases "meld_t cmp0 lc rc")
      case None
      with sp gi by_pop(2) have "w' = w" by simp
      then show ?thesis using g by blast
    next
      case (Some t)
      with sp gi by_pop(2) have "state_inv cmp0 w' (g(this := t))" by auto
      moreover have "all_heap_ordered cmp0 (g(this := t))"
      proof (rule all_heap_ordered_upd[OF g(2)])
        fix lt assume s: "sound cmp0 lt"
        have "heap_order lt (Br p v n lc rc)"
          using all_heap_orderedD[OF g(2) s, of this] gi by simp
        then show "heap_order lt t"
          using meld_t_heap_order[OF Some s] by simp
      qed
      ultimately show ?thesis by blast
    qed
  qed
next
  case (by_merge w this other res w')
  then obtain g where g: "state_inv cmp0 w g" "all_heap_ordered cmp0 g" by blast
  from merge_Some[OF by_merge(2)] obtain q ot
    where q: "objs w this = Some q" and ot: "objs w other = Some ot" by blast
  show ?case
  proof (cases "this = other \<or> cnt ot = 0")
    case True
    then have "w' = w" using merge_noop[OF q ot] by_merge(2) by simp
    then show ?thesis using g by blast
  next
    case False
    then have ne: "this \<noteq> other" "cnt ot \<noteq> 0" by simp_all
    note sp = merge_spec[OF g(1) q ot ne]
    show ?thesis
    proof (cases "meld_t cmp0 (g this) (g other)")
      case None
      with sp by_merge(2) have "w' = w" by simp
      then show ?thesis using g by blast
    next
      case (Some t)
      with sp by_merge(2) have "state_inv cmp0 w' (g(this := t, other := Tip))" by auto
      moreover have "all_heap_ordered cmp0 (g(this := t, other := Tip))"
      proof (rule all_heap_ordered_upd[OF all_heap_ordered_upd[OF g(2)]])
        fix lt assume s: "sound cmp0 lt"
        show "heap_order lt t"
          by (rule meld_t_heap_order[OF Some s all_heap_orderedD[OF g(2) s] all_heap_orderedD[OF g(2) s]])
      qed simp
      ultimately show ?thesis by blast
    qed
  qed
qed

subsection \<open>What the callers of the public functions can rely on\<close>

lemma merge_dom: "merge_pq w i j = Some (res, w') \<Longrightarrow> (objs w' k = None) = (objs w k = None)"
  by (auto simp: merge_pq_def split: Option.bind_splits prod.splits sum.splits if_splits)

lemma leftist_ranks: "leftist t \<Longrightarrow> ranks_ge1 t \<and> 0 \<le> npl_t t"
  by (induction t) auto

text \<open>The stored \<open>npl\<close> of a leftist tree is at most the logarithm of its number of nodes, so
  the \<open>int\<close> of the source never overflows.\<close>

lemma leftist_npl_bound: "leftist t \<Longrightarrow> 2 ^ nat (npl_t t) \<le> count_t t + 1"
proof (induction t)
  case Tip
  then show ?case by simp
next
  case (Br p v n lc rc)
  have l: "leftist lc" "leftist rc" and n: "n = npl_t rc + 1" and le: "npl_t rc \<le> npl_t lc"
    using Br.prems by simp_all
  have nn: "0 \<le> npl_t rc" using leftist_ranks[OF l(2)] by simp
  have a: "(2::nat) ^ nat n = 2 ^ nat (npl_t rc) + 2 ^ nat (npl_t rc)"
    using n nn by (simp add: nat_add_distrib)
  have b: "(2::nat) ^ nat (npl_t rc) \<le> 2 ^ nat (npl_t lc)"
    using le nn by (intro power_increasing) simp_all
  have c: "2 ^ nat (npl_t lc) \<le> count_t lc + 1" "2 ^ nat (npl_t rc) \<le> count_t rc + 1"
    using Br.IH l by simp_all
  have "(2::nat) ^ nat n \<le> (count_t lc + 1) + (count_t rc + 1)"
    using a b c by linarith
  then show ?case by simp
qed

lemma count_t_elems: "count_t t = size (elems t)"
  by (induction t) auto

lemma inv_holds:
  assumes "state_inv cmp0 w g" "objs w i = Some q"
  shows "holds w i (g i)"
  using inv_Some[OF assms] assms(2) by (simp add: holds_def queue_ok_def)

lemma holds_unique:
  assumes "state_inv cmp0 w g" "holds w i t"
  shows "t = g i"
proof -
  from assms(2) obtain q where q: "objs w i = Some q"
    by (cases "objs w i") (simp_all add: holds_def)
  note ok = inv_Some[OF assms(1) q, unfolded queue_ok_def]
  from assms(2) q have "ptr_of t = root q" "rep (cells (mem w)) t" by (simp_all add: holds_def)
  then show ?thesis using ok rep_unique[of "cells (mem w)" t "g i"] by simp
qed











subsection \<open>The concrete run\<close>

lemmas demo_eval = push_def pop_def merge_pq_def construct_def new_node_def upd_def get_npl_def
  delete_node_def empty_pq_def meld_None_left meld_None_right meld_Some_Some cmp_demo_def
  never_throws_def leaf_def demo_queue_def Let_def fun_eq_iff

lemma demo_reachable: "reachable cmp_demo never_throws demo_world"
proof -
  let ?R = "reachable cmp_demo never_throws"
  define s1 :: "nat world" where "s1 = \<lparr>mem = \<lparr>cells = (\<lambda>p. None), lim = 0\<rparr>,
     objs = (\<lambda>i. None)(0 \<mapsto> demo_queue None 0)\<rparr>"
  define s2 :: "nat world" where "s2 = \<lparr>mem = \<lparr>cells = (\<lambda>p. None)(0 \<mapsto> leaf 3), lim = 1\<rparr>,
     objs = (\<lambda>i. None)(0 \<mapsto> demo_queue (Some 0) 1)\<rparr>"
  define s3 :: "nat world" where "s3 = \<lparr>mem = \<lparr>cells = (\<lambda>p. None)(
       0 \<mapsto> \<lparr>val = 3, l = Some 1, r = None, npl = 1\<rparr>, 1 \<mapsto> leaf 1), lim = 2\<rparr>,
     objs = (\<lambda>i. None)(0 \<mapsto> demo_queue (Some 0) 2)\<rparr>"
  define c4 :: "nat store" where "c4 = (\<lambda>p. None)(
       0 \<mapsto> \<lparr>val = 3, l = Some 1, r = Some 2, npl = 2\<rparr>, 1 \<mapsto> leaf 1, 2 \<mapsto> leaf 2)"
  define s4 :: "nat world" where "s4 = \<lparr>mem = \<lparr>cells = c4, lim = 3\<rparr>,
     objs = (\<lambda>i. None)(0 \<mapsto> demo_queue (Some 0) 3)\<rparr>"
  define s5 :: "nat world" where "s5 = \<lparr>mem = \<lparr>cells = c4, lim = 3\<rparr>,
     objs = (\<lambda>i. None)(0 \<mapsto> demo_queue (Some 0) 3, 1 \<mapsto> demo_queue None 0)\<rparr>"
  define s6 :: "nat world" where "s6 = \<lparr>mem = \<lparr>cells = c4(3 \<mapsto> leaf 2), lim = 4\<rparr>,
     objs = (\<lambda>i. None)(0 \<mapsto> demo_queue (Some 0) 3, 1 \<mapsto> demo_queue (Some 3) 1)\<rparr>"
  define s7 :: "nat world" where "s7 = \<lparr>mem = \<lparr>cells = c4(3 \<mapsto> leaf 2), lim = 4\<rparr>,
     objs = (\<lambda>i. None)(0 \<mapsto> demo_queue (Some 0) 3, 1 \<mapsto> demo_queue (Some 3) 1,
                         2 \<mapsto> demo_queue None 0)\<rparr>"
  have r1: "?R s1"
    by (rule by_construct[OF by_start, where this = 0 and res = "Inr ()"])
       (simp add: s1_def start_def demo_eval)
  have r2: "?R s2"
    by (rule by_push[OF r1, where this = 0 and e = 3 and res = "Inr ()"])
       (simp add: s1_def s2_def demo_eval)
  have r3: "?R s3"
    by (rule by_push[OF r2, where this = 0 and e = 1 and res = "Inr ()"])
       (simp add: s2_def s3_def demo_eval)
  have r4: "?R s4"
    by (rule by_push[OF r3, where this = 0 and e = 2 and res = "Inr ()"])
       (simp add: s3_def s4_def c4_def demo_eval)
  have r5: "?R s5"
    by (rule by_construct[OF r4, where this = 1 and res = "Inr ()"])
       (simp add: s4_def s5_def demo_eval)
  have r6: "?R s6"
    by (rule by_push[OF r5, where this = 1 and e = 2 and res = "Inr ()"])
       (simp add: s5_def s6_def c4_def demo_eval)
  have r7: "?R s7"
    by (rule by_construct[OF r6, where this = 2 and res = "Inr ()"])
       (simp add: s6_def s7_def demo_eval)
  show ?thesis
    by (rule by_push[OF r7, where this = 2 and e = 1 and res = "Inr ()"])
       (simp add: s7_def c4_def demo_world_def demo_cells_def demo_eval)
qed

lemma demo_empty_reachable: "reachable cmp_demo never_throws demo_empty"
  by (rule by_construct[OF by_start, where this = 0 and res = "Inr ()"])
     (simp add: demo_empty_def start_def demo_eval)

lemma demo_holds: "holds demo_world 0 demo_tree"
  by (simp add: holds_def demo_world_def demo_cells_def demo_tree_def demo_queue_def leaf_def)

lemma swo_less_nat: "strict_weak_ordering ((<) :: nat \<Rightarrow> nat \<Rightarrow> bool)"
  unfolding strict_weak_ordering_def by auto

lemma answers_cmp_demo: "answers cmp_demo (<)"
  unfolding answers_def cmp_demo_def by auto

section \<open>The claims of the specification\<close>



text \<open>Claim C2 (merge correctness). For two distinct queues \<open>a\<close> and \<open>b\<close> of a reachable
  state, holding the trees \<open>ta\<close> and \<open>tb\<close>, the call \<open>a.merge(b)\<close> returns; if it returns without an
  exception, \<open>a\<close> holds exactly one tree, whose elements are the multiset union of those of
  \<open>ta\<close> and \<open>tb\<close>, \<open>a.size()\<close> is the sum of the two sizes before the call, and \<open>b\<close> is empty:
  its root is null and its size 0.\<close>

theorem merge_correct:
  assumes "reachable cmp0 ct w" and "a \<noteq> b" and "holds w a ta" and "holds w b tb"
  shows "\<exists>res w'. merge_pq w a b = Some (res, w') \<and>
           size_pq w a = Some (count_t ta) \<and> size_pq w b = Some (count_t tb) \<and>
           (res = Inr () \<longrightarrow>
              (\<exists>t. holds w' a t \<and> (\<forall>t'. holds w' a t' \<longrightarrow> t' = t) \<and>
                   elems t = elems ta + elems tb) \<and>
              size_pq w' a = Some (count_t ta + count_t tb) \<and>
              holds w' b Tip \<and> size_pq w' b = Some 0)"
proof -
  from reachable_inv[OF assms(1)] obtain g where g: "state_inv cmp0 w g" by blast
  have ta: "ta = g a" and tb: "tb = g b"
    using holds_unique[OF g] assms(3,4) by simp_all
  from assms(3,4) obtain q ot where q: "objs w a = Some q" and ot: "objs w b = Some ot"
    by (cases "objs w a"; cases "objs w b") (simp_all add: holds_def)
  note okq = inv_Some[OF g q, unfolded queue_ok_def, folded ta]
  note oko = inv_Some[OF g ot, unfolded queue_ok_def, folded tb]
  have sz: "size_pq w a = Some (count_t ta)" "size_pq w b = Some (count_t tb)"
    using q ot okq oko by (simp_all add: size_pq_def)
  show ?thesis
  proof (cases "cnt ot = 0")
    case True
    then have tip: "tb = Tip" using oko by (cases tb) auto
    have res: "merge_pq w a b = Some (Inr (), w)" using merge_noop[OF q ot] True by simp
    have un: "\<forall>t'. holds w a t' \<longrightarrow> t' = ta"
      using holds_unique[OF g, of a] ta by blast
    have el: "elems ta = elems ta + elems tb" using tip by simp
    have sa: "size_pq w a = Some (count_t ta + count_t tb)" using sz(1) tip by simp
    have hb: "holds w b Tip" using assms(4) tip by simp
    have sb: "size_pq w b = Some 0" using sz(2) tip by simp
    show ?thesis using res sz assms(3) un el sa hb sb by blast
  next
    case False
    note sp = merge_spec[OF g q ot assms(2) False]
    show ?thesis
    proof (cases "meld_t cmp0 (g a) (g b)")
      case None
      with sp sz show ?thesis by simp
    next
      case (Some t)
      with sp obtain w' where res: "merge_pq w a b = Some (Inr (), w')"
        and inv': "state_inv cmp0 w' (g(a := t, b := Tip))" by auto
      from merge_dom[OF res] q ot obtain q' ot'
        where q': "objs w' a = Some q'" and ot': "objs w' b = Some ot'"
        by (cases "objs w' a"; cases "objs w' b") auto
      note okq' = inv_Some[OF inv' q', unfolded queue_ok_def]
      note oko' = inv_Some[OF inv' ot', unfolded queue_ok_def]
      have ha: "holds w' a t" using inv_holds[OF inv' q'] assms(2) by simp
      have hb: "holds w' b Tip" using inv_holds[OF inv' ot'] by simp
      have un: "\<forall>t'. holds w' a t' \<longrightarrow> t' = t"
        using holds_unique[OF inv', of a] assms(2) by simp
      have el: "elems t = elems ta + elems tb"
        using meld_t_elems[OF Some] ta tb by simp
      have "cnt q' = count_t ta + count_t tb"
        using okq' assms(2) meld_t_count[OF Some] ta tb by simp
      then have sa: "size_pq w' a = Some (count_t ta + count_t tb)"
        using q' by (simp add: size_pq_def)
      have sb: "size_pq w' b = Some 0"
        using ot' oko' by (simp add: size_pq_def)
      show ?thesis using res sz ha hb un el sa sb by blast
    qed
  qed
qed

theorem merge_correct_witness:
  "reachable cmp_demo never_throws demo_world \<and> (0::nat) \<noteq> 1 \<and>
   holds demo_world 0 demo_tree \<and> holds demo_world 1 (Br 3 2 1 Tip Tip) \<and>
   merge_pq demo_world 0 1 = Some (Inr (), demo_merged) \<and>
   size_pq demo_world 0 = Some 3 \<and> size_pq demo_world 1 = Some 1 \<and>
   (\<exists>t. holds demo_merged 0 t \<and> elems t = {#3, 1, 2, 2#}) \<and>
   size_pq demo_merged 0 = Some 4 \<and> holds demo_merged 1 Tip \<and> size_pq demo_merged 1 = Some 0"
proof -
  have h1: "holds demo_world 1 (Br 3 2 1 Tip Tip)"
    by (simp add: holds_def demo_world_def demo_cells_def demo_queue_def leaf_def)
  have m: "merge_pq demo_world 0 1 = Some (Inr (), demo_merged)"
    by (simp add: demo_world_def demo_merged_def demo_cells_def demo_eval)
  have ne: "(0::nat) \<noteq> 1" by simp
  from merge_correct[OF demo_reachable ne demo_holds h1]
  obtain res w' where r: "merge_pq demo_world 0 1 = Some (res, w')"
    and s: "size_pq demo_world 0 = Some (count_t demo_tree)"
           "size_pq demo_world 1 = Some (count_t (Br 3 2 1 Tip Tip :: nat ltree))"
    and p: "res = Inr () \<longrightarrow>
              (\<exists>t. holds w' 0 t \<and> (\<forall>t'. holds w' 0 t' \<longrightarrow> t' = t) \<and>
                   elems t = elems demo_tree + elems (Br 3 2 1 Tip Tip)) \<and>
              size_pq w' 0 = Some (count_t demo_tree + count_t (Br 3 2 1 Tip Tip :: nat ltree)) \<and>
              holds w' 1 Tip \<and> size_pq w' 1 = Some 0"
    by blast
  from r m have eq: "res = Inr ()" "w' = demo_merged" by simp_all
  from p eq obtain t where t: "holds demo_merged 0 t"
      "elems t = elems demo_tree + elems (Br 3 2 1 Tip Tip)"
    and rest: "size_pq demo_merged 0 = Some (count_t demo_tree + count_t (Br 3 2 1 Tip Tip :: nat ltree))"
      "holds demo_merged 1 Tip" "size_pq demo_merged 1 = Some 0"
    by blast
  have "elems t = {#3, 1, 2, 2#}" using t(2) by (simp add: demo_tree_def)
  with t(1) have ex: "\<exists>t. holds demo_merged 0 t \<and> elems t = {#3, 1, 2, 2#}" by blast
  have c: "count_t demo_tree = 3" by (simp add: demo_tree_def)
  show ?thesis
    using demo_reachable demo_holds h1 m s rest ex c by simp
qed

text \<open>Claim C3, as the code has it. \<open>push\<close> allocates the node, and with it copies the element,
  before it enters its \<open>try\<close> block. When the copy throws, the exception of the copy reaches the
  caller as it is, not converted into \<open>runtime_error\<close>, and the program state is exactly the one
  before the call.\<close>

theorem copy_failure_in_push:
  "objs w this = Some q \<Longrightarrow> ct e \<Longrightarrow> push ct w this e = Some (Inl user_exception, w)"
  by (simp add: push_def new_node_def)

text \<open>The exception that reaches the caller is not \<open>runtime_error\<close>.\<close>

theorem push_copy_exception_not_converted:
  "push always_throws demo_world 0 7 = Some (Inl user_exception, demo_world) \<and>
   user_exception \<noteq> runtime_error"
  by (simp add: push_def new_node_def always_throws_def demo_world_def)

theorem copy_failure_in_push_witness:
  "objs demo_world 0 = Some (demo_queue (Some 0) 3) \<and> always_throws 7 \<and>
   push always_throws demo_world 0 7 = Some (Inl user_exception, demo_world)"
proof -
  have a: "objs demo_world 0 = Some (demo_queue (Some 0) 3)" by (simp add: demo_world_def)
  have b: "always_throws 7" by (simp add: always_throws_def)
  from copy_failure_in_push[where ct = always_throws and e = 7, OF a b] a b show ?thesis by simp
qed

text \<open>Claim C4 (top correctness). Let the ordering predicate answer according to a strict weak
  ordering \<open>lt\<close> whenever it answers. For a non-empty queue of a reachable state, \<open>top()\<close> returns
  an element of the queue such that no stored element is greater: \<open>lt v x\<close> holds for no stored
  \<open>x\<close>, and the predicate never answers \<open>true\<close> on \<open>(v, x)\<close>.\<close>

theorem top_is_maximal:
  assumes "strict_weak_ordering lt" and "answers cmp0 lt"
    and "reachable cmp0 ct w" and "holds w this t" and "empty_pq w this = Some False"
  shows "\<exists>v. top_pq w this = Some (Inr v) \<and> v \<in># elems t \<and>
             (\<forall>x\<in>#elems t. \<not> lt v x \<and> cmp0 v x \<noteq> Some True)"
proof -
  from reachable_inv[OF assms(3)] obtain g where g: "state_inv cmp0 w g" "all_heap_ordered cmp0 g"
    by blast
  from assms(5) obtain q where q: "objs w this = Some q" and ne: "cnt q \<noteq> 0"
    by (auto simp: empty_pq_def)
  have t: "t = g this" by (rule holds_unique[OF g(1) assms(4)])
  note ok = inv_Some[OF g(1) q, unfolded queue_ok_def, folded t]
  from ok ne obtain p v n lc rc where br: "t = Br p v n lc rc"
    by (cases t) auto
  have rt: "root q = Some p" using ok br by auto
  have cell: "cells (mem w) p = Some \<lparr>val = v, l = ptr_of lc, r = ptr_of rc, npl = n\<rparr>"
    using ok br by auto
  have top: "top_pq w this = Some (Inr v)"
    using q ne rt cell by (simp add: top_pq_def empty_pq_def)
  have ho: "heap_order lt t"
    using all_heap_orderedD[OF g(2) swo_sound[OF assms(1,2)], of this] t by simp
  have nb: "not_below_root lt v t" using br swo_irrefl[OF assms(1)] by simp
  have mx: "\<not> lt v x" if "x \<in># elems t" for x
    by (rule heap_order_root_max[OF assms(1) ho nb that])
  have "cmp0 v x \<noteq> Some True" if "x \<in># elems t" for x
    using mx[OF that] answers_Some[OF assms(2), of v x True] by blast
  with mx top br show ?thesis by auto
qed

theorem top_is_maximal_witness:
  "strict_weak_ordering ((<) :: nat \<Rightarrow> nat \<Rightarrow> bool) \<and> answers cmp_demo (<) \<and>
   reachable cmp_demo never_throws demo_world \<and> holds demo_world 0 demo_tree \<and>
   empty_pq demo_world 0 = Some False \<and> top_pq demo_world 0 = Some (Inr 3) \<and>
   3 \<in># elems demo_tree \<and> \<not> (3::nat) < 1 \<and> \<not> (3::nat) < 2 \<and>
   cmp_demo 3 1 \<noteq> Some True \<and> cmp_demo 3 2 \<noteq> Some True"
proof -
  have e: "empty_pq demo_world 0 = Some False"
    by (simp add: empty_pq_def demo_world_def demo_queue_def)
  have t: "top_pq demo_world 0 = Some (Inr 3)"
    by (simp add: top_pq_def empty_pq_def demo_world_def demo_cells_def demo_queue_def)
  from top_is_maximal[OF swo_less_nat answers_cmp_demo demo_reachable demo_holds e] t
  have m: "3 \<in># elems demo_tree" "\<forall>x\<in>#elems demo_tree. \<not> 3 < x \<and> cmp_demo 3 x \<noteq> Some True"
    by simp_all
  have "1 \<in># elems demo_tree" "2 \<in># elems demo_tree" by (simp_all add: demo_tree_def)
  with m(2) have "\<not> (3::nat) < 1 \<and> \<not> (3::nat) < 2 \<and>
      cmp_demo 3 1 \<noteq> Some True \<and> cmp_demo 3 2 \<noteq> Some True"
    by blast
  then show ?thesis
    using swo_less_nat answers_cmp_demo demo_reachable demo_holds e t m(1) by simp
qed

text \<open>Claim C5 (heap order). Let the ordering predicate answer according to a strict weak
  ordering \<open>lt\<close> whenever it answers. Every queue of a reachable state holds exactly one tree, and
  at every node of it the parent's value is not less than the value of either child; the
  predicate, called on a parent and its child, never answers \<open>true\<close>.\<close>

theorem heap_order_invariant:
  assumes "strict_weak_ordering lt" and "answers cmp0 lt"
    and "reachable cmp0 ct w" and "objs w this = Some q"
  shows "\<exists>t. holds w this t \<and> (\<forall>t'. holds w this t' \<longrightarrow> t' = t) \<and>
             heap_order lt t \<and> heap_order (\<lambda>x y. cmp0 x y = Some True) t"
proof -
  from reachable_inv[OF assms(3)] obtain g where g: "state_inv cmp0 w g" "all_heap_ordered cmp0 g"
    by blast
  have s: "sound cmp0 lt" by (rule swo_sound[OF assms(1,2)])
  have "sound cmp0 (\<lambda>x y. cmp0 x y = Some True)"
    unfolding sound_def
  proof (intro allI conjI impI)
    fix x y assume "cmp0 x y = Some True"
    then have "lt x y" using answers_Some[OF assms(2)] by blast
    then have "\<not> lt y x" by (rule swo_asym[OF assms(1)])
    then show "\<not> cmp0 y x = Some True" using answers_Some[OF assms(2), of y x True] by blast
  qed simp
  then have "heap_order (\<lambda>x y. cmp0 x y = Some True) (g this)"
    by (rule all_heap_orderedD[OF g(2)])
  moreover have "heap_order lt (g this)"
    by (rule all_heap_orderedD[OF g(2) s])
  ultimately show ?thesis
    using inv_holds[OF g(1) assms(4)] holds_unique[OF g(1)] by blast
qed

theorem heap_order_invariant_witness:
  "strict_weak_ordering ((<) :: nat \<Rightarrow> nat \<Rightarrow> bool) \<and> answers cmp_demo (<) \<and>
   reachable cmp_demo never_throws demo_world \<and>
   objs demo_world 0 = Some (demo_queue (Some 0) 3) \<and>
   holds demo_world 0 demo_tree \<and> heap_order (<) demo_tree \<and>
   heap_order (\<lambda>x y. cmp_demo x y = Some True) demo_tree"
proof -
  have a: "objs demo_world 0 = Some (demo_queue (Some 0) 3)" by (simp add: demo_world_def)
  from heap_order_invariant[OF swo_less_nat answers_cmp_demo demo_reachable a] demo_holds
  have "heap_order (<) demo_tree \<and> heap_order (\<lambda>x y. cmp_demo x y = Some True) demo_tree"
    by blast
  then show ?thesis
    using swo_less_nat answers_cmp_demo demo_reachable demo_holds a by simp
qed

text \<open>Claim C6 (leftist and rank invariants). Every queue of a reachable state holds exactly one
  tree, and at every node of it the \<open>npl\<close> of the left child is at least the \<open>npl\<close> of the right
  child and the node's own \<open>npl\<close> is that of the right child plus 1, a null child counting 0;
  so every stored \<open>npl\<close> is at least 1.\<close>

theorem leftist_invariant:
  assumes "reachable cmp0 ct w" and "objs w this = Some q"
  shows "\<exists>t. holds w this t \<and> leftist t \<and> ranks_ge1 t \<and> (\<forall>t'. holds w this t' \<longrightarrow> t' = t)"
proof -
  from reachable_inv[OF assms(1)] obtain g where g: "state_inv cmp0 w g" by blast
  note ok = inv_Some[OF g assms(2), unfolded queue_ok_def]
  have "leftist (g this)" using ok by simp
  then show ?thesis
    using inv_holds[OF g assms(2)] holds_unique[OF g] leftist_ranks[of "g this"] by blast
qed

theorem leftist_invariant_witness:
  "reachable cmp_demo never_throws demo_world \<and>
   objs demo_world 0 = Some (demo_queue (Some 0) 3) \<and>
   holds demo_world 0 demo_tree \<and> leftist demo_tree \<and> ranks_ge1 demo_tree"
proof -
  have a: "objs demo_world 0 = Some (demo_queue (Some 0) 3)" by (simp add: demo_world_def)
  from leftist_invariant[OF demo_reachable a] demo_holds
  have "leftist demo_tree \<and> ranks_ge1 demo_tree" by blast
  then show ?thesis using demo_reachable demo_holds a by simp
qed

text \<open>Claim C7 (count correctness). For every queue of a reachable state, and a state reached
  through a failed operation is one, \<open>size()\<close> is the number of elements of the tree at its
  root, and \<open>empty()\<close> is true exactly when that number is 0.\<close>

theorem count_invariant:
  assumes "reachable cmp0 ct w" and "objs w this = Some q"
  shows "\<exists>t. holds w this t \<and> (\<forall>t'. holds w this t' \<longrightarrow> t' = t) \<and>
             size_pq w this = Some (size (elems t)) \<and>
             empty_pq w this = Some (size (elems t) = 0)"
proof -
  from reachable_inv[OF assms(1)] obtain g where g: "state_inv cmp0 w g" by blast
  note ok = inv_Some[OF g assms(2), unfolded queue_ok_def]
  have "cnt q = size (elems (g this))" using ok by (simp add: count_t_elems)
  then have "size_pq w this = Some (size (elems (g this)))"
    "empty_pq w this = Some (size (elems (g this)) = 0)"
    using assms(2) by (simp_all add: size_pq_def empty_pq_def)
  then show ?thesis
    using inv_holds[OF g assms(2)] holds_unique[OF g] by blast
qed

theorem count_invariant_witness:
  "reachable cmp_demo never_throws demo_world \<and>
   objs demo_world 0 = Some (demo_queue (Some 0) 3) \<and>
   holds demo_world 0 demo_tree \<and>
   size_pq demo_world 0 = Some (size (elems demo_tree)) \<and>
   empty_pq demo_world 0 = Some (size (elems demo_tree) = 0)"
proof -
  have a: "objs demo_world 0 = Some (demo_queue (Some 0) 3)" by (simp add: demo_world_def)
  from count_invariant[OF demo_reachable a] demo_holds
  have "size_pq demo_world 0 = Some (size (elems demo_tree)) \<and>
        empty_pq demo_world 0 = Some (size (elems demo_tree) = 0)" by blast
  then show ?thesis using demo_reachable demo_holds a by simp
qed

text \<open>Claim C8 (empty container). On a queue of size 0 of a reachable state, \<open>top()\<close> raises
  \<open>container_is_empty\<close>, and \<open>pop()\<close> raises it and leaves the program state as it is; the root
  of that queue is null.\<close>

theorem empty_queue_raises:
  assumes "reachable cmp0 ct w" and "size_pq w this = Some 0"
  shows "top_pq w this = Some (Inl container_is_empty) \<and>
         pop w this = Some (Inl container_is_empty, w) \<and>
         holds w this Tip"
proof -
  from assms(2) obtain q where q: "objs w this = Some q" and c: "cnt q = 0"
    by (auto simp: size_pq_def)
  from reachable_inv[OF assms(1)] obtain g where g: "state_inv cmp0 w g" by blast
  note ok = inv_Some[OF g q, unfolded queue_ok_def]
  have "g this = Tip" using ok c by (cases "g this") auto
  then have "holds w this Tip" using inv_holds[OF g q] by simp
  moreover have "top_pq w this = Some (Inl container_is_empty)"
    using q c by (simp add: top_pq_def empty_pq_def)
  ultimately show ?thesis using pop_empty[OF q c] by simp
qed

theorem empty_queue_raises_witness:
  "reachable cmp_demo never_throws demo_empty \<and> size_pq demo_empty 0 = Some 0 \<and>
   top_pq demo_empty 0 = Some (Inl container_is_empty) \<and>
   pop demo_empty 0 = Some (Inl container_is_empty, demo_empty) \<and>
   holds demo_empty 0 Tip"
proof -
  have a: "size_pq demo_empty 0 = Some 0"
    by (simp add: size_pq_def demo_empty_def demo_queue_def)
  from empty_queue_raises[OF demo_empty_reachable a] demo_empty_reachable a
  show ?thesis by simp
qed

text \<open>Claim C9 (tie-break). When \<open>meld\<close> is called on two non-null nodes and returns a
  root, that root is the second node if the predicate answered \<open>true\<close> on the two values, and
  the first node in every other case, a tie included. On two trees that share no node the
  call does return.\<close>

theorem meld_root_choice:
  assumes "h pa = Some na" and "h pb = Some nb"
  shows "(meld cmp h (Some pa) (Some pb) = Some (Inr p', h') \<longrightarrow>
            p' = Some (if cmp (val na) (val nb) = Some True then pb else pa)) \<and>
         (rep h ta \<and> rep h tb \<and> ptr_of ta = Some pa \<and> ptr_of tb = Some pb \<and>
          tree_shaped ta \<and> tree_shaped tb \<and> addrs ta \<inter> addrs tb = {} \<longrightarrow>
            (\<exists>y. meld cmp h (Some pa) (Some pb) = Some y))"
proof (intro conjI impI)
  assume "meld cmp h (Some pa) (Some pb) = Some (Inr p', h')"
  then show "p' = Some (if cmp (val na) (val nb) = Some True then pb else pa)"
    using assms
    by (auto simp: meld_Some_Some Let_def
        split: option.splits Option.bind_splits prod.splits sum.splits if_splits)
next
  assume wf: "rep h ta \<and> rep h tb \<and> ptr_of ta = Some pa \<and> ptr_of tb = Some pb \<and>
          tree_shaped ta \<and> tree_shaped tb \<and> addrs ta \<inter> addrs tb = {}"
  then have p: "ptr_of ta = Some pa" "ptr_of tb = Some pb" by simp_all
  from wf have "case meld_t cmp ta tb of
           None \<Rightarrow> meld cmp h (ptr_of ta) (ptr_of tb) = Some (Inl user_exception, h)
         | Some t \<Rightarrow> \<exists>h'. meld cmp h (ptr_of ta) (ptr_of tb) = Some (Inr (ptr_of t), h') \<and> rep h' t
                       \<and> (\<forall>q. q \<notin> addrs ta \<union> addrs tb \<longrightarrow> h' q = h q)"
    using meld_refines[of h ta tb cmp] by blast
  then show "\<exists>y. meld cmp h (Some pa) (Some pb) = Some y"
    unfolding p by (cases "meld_t cmp ta tb") auto
qed

theorem meld_root_choice_witness:
  "demo_cells 2 = Some (leaf 2) \<and> demo_cells 3 = Some (leaf 2) \<and>
   cmp_demo (val (leaf 2)) (val (leaf 2)) = Some False \<and>
   meld cmp_demo demo_cells (Some 2) (Some 3) =
     Some (Inr (Some 2), demo_cells(2 \<mapsto> \<lparr>val = 2, l = Some 3, r = None, npl = 1\<rparr>)) \<and>
   Some (2::nat) = Some (if cmp_demo (val (leaf 2)) (val (leaf 2)) = Some True then 3 else 2) \<and>
   rep demo_cells (Br 2 2 1 Tip Tip) \<and> rep demo_cells (Br 3 2 1 Tip Tip) \<and>
   (\<exists>y. meld cmp_demo demo_cells (Some 2) (Some 3) = Some y)"
proof -
  have m: "meld cmp_demo demo_cells (Some 2) (Some 3) =
     Some (Inr (Some 2), demo_cells(2 \<mapsto> \<lparr>val = 2, l = Some 3, r = None, npl = 1\<rparr>))"
    by (simp add: demo_cells_def demo_eval)
  have c: "demo_cells 2 = Some (leaf 2)" "demo_cells 3 = Some (leaf 2)"
    by (simp_all add: demo_cells_def)
  have f: "cmp_demo (val (leaf 2)) (val (leaf 2)) = Some False"
    by (simp add: cmp_demo_def leaf_def)
  have rp: "rep demo_cells (Br 2 2 1 Tip Tip)" "rep demo_cells (Br 3 2 1 Tip Tip)"
    by (simp_all add: demo_cells_def leaf_def)
  from meld_root_choice[OF c, where cmp = cmp_demo and p' = "Some 2"
      and h' = "demo_cells(2 \<mapsto> \<lparr>val = 2, l = Some 3, r = None, npl = 1\<rparr>)"
      and ta = "Br 2 2 1 Tip Tip" and tb = "Br 3 2 1 Tip Tip"] m rp
  have "Some (2::nat) = Some (if cmp_demo (val (leaf 2)) (val (leaf 2)) = Some True then 3 else 2) \<and>
        (\<exists>y. meld cmp_demo demo_cells (Some 2) (Some 3) = Some y)"
    by simp
  then show ?thesis using m c f rp by simp
qed

text \<open>Claim C10 (self-assignment). \<open>q = q\<close> returns the address of \<open>q\<close> and leaves the whole
  program state as it is, whatever the store holds and even where a copy would throw: neither
  \<open>clone\<close> nor \<open>clear\<close> runs.\<close>

theorem self_assignment_is_noop:
  "objs w this = Some q \<Longrightarrow> assign ct w this this = Some (Inr this, w)"
  by (simp add: assign_def)

theorem self_assignment_is_noop_witness:
  "objs demo_world 0 = Some (demo_queue (Some 0) 3) \<and>
   assign never_throws demo_world 0 0 = Some (Inr 0, demo_world)"
proof -
  have a: "objs demo_world 0 = Some (demo_queue (Some 0) 3)" by (simp add: demo_world_def)
  from self_assignment_is_noop[OF a, of never_throws] a show ?thesis by simp
qed

end
